theory Spec2Isabelle
  imports Main "HOL-Library.AList"
begin

section \<open>The cache (src/utils/cache-manager.js)\<close>

text \<open>
  A JavaScript \<^verbatim>\<open>Map\<close> keeps its keys in insertion order, and setting a key that is
  already present keeps the key's position. It is modelled as an association list with
  distinct keys: \<open>Map.set\<close> is \<^const>\<open>AList.update\<close>, \<open>Map.delete\<close> is
  \<^const>\<open>AList.delete\<close>, \<open>Map.get\<close> is \<^const>\<open>map_of\<close> and \<open>Map.size\<close> is
  \<^const>\<open>length\<close>. \<open>Date.now()\<close> is the parameter \<open>now\<close> of every operation that
  reads the clock (milliseconds, an integer); the two clock reads of \<open>MemoryCache.set\<close>
  are taken to give the same value.
\<close>

record 'v CacheEntry =
  data :: 'v
  timestamp :: int
  ttl :: int
  key :: string

record 'v MemoryCache =
  cache :: "(string \<times> 'v CacheEntry) list"
  accessTimes :: "(string \<times> int) list"

definition MemoryCache_new :: "'v MemoryCache" where
  "MemoryCache_new = \<lparr>cache = [], accessTimes = []\<rparr>"

definition MemoryCache_set :: "'v MemoryCache \<Rightarrow> string \<Rightarrow> 'v \<Rightarrow> int \<Rightarrow> int \<Rightarrow> 'v MemoryCache" where
  "MemoryCache_set m k d t now =
     \<lparr>cache = AList.update k \<lparr>data = d, timestamp = now, ttl = t, key = k\<rparr> (cache m),
      accessTimes = AList.update k now (accessTimes m)\<rparr>"

definition MemoryCache_delete :: "'v MemoryCache \<Rightarrow> string \<Rightarrow> 'v MemoryCache" where
  "MemoryCache_delete m k =
     \<lparr>cache = AList.delete k (cache m), accessTimes = AList.delete k (accessTimes m)\<rparr>"

text \<open>\<open>get\<close> returns the data (or \<open>None\<close> for JavaScript's \<open>null\<close>) and the cache after it.\<close>

definition MemoryCache_get :: "'v MemoryCache \<Rightarrow> string \<Rightarrow> int \<Rightarrow> 'v option \<times> 'v MemoryCache" where
  "MemoryCache_get m k now =
     (case map_of (cache m) k of
        None \<Rightarrow> (None, m)
      | Some entry \<Rightarrow>
          if now - timestamp entry > ttl entry then (None, MemoryCache_delete m k)
          else (Some (data entry), m\<lparr>accessTimes := AList.update k now (accessTimes m)\<rparr>))"

definition MemoryCache_clear :: "'v MemoryCache \<Rightarrow> 'v MemoryCache" where
  "MemoryCache_clear m = \<lparr>cache = [], accessTimes = []\<rparr>"

definition MemoryCache_size :: "'v MemoryCache \<Rightarrow> nat" where
  "MemoryCache_size m = length (cache m)"

text \<open>\<open>cleanup\<close> walks the entries and deletes each expired one.\<close>

definition MemoryCache_cleanup :: "'v MemoryCache \<Rightarrow> int \<Rightarrow> 'v MemoryCache" where
  "MemoryCache_cleanup m now =
     fold (\<lambda>(k, entry) m'. if now - timestamp entry > ttl entry then MemoryCache_delete m' k else m')
       (cache m) m"

text \<open>
  \<open>evictLRU\<close>: the access times sorted ascending (\<open>Array.prototype.sort\<close> is stable, as
  \<^const>\<open>sort_key\<close> is), the first \<open>size - maxSize\<close> of them deleted.
\<close>

definition MemoryCache_evictLRU :: "'v MemoryCache \<Rightarrow> nat \<Rightarrow> 'v MemoryCache" where
  "MemoryCache_evictLRU m maxSize =
     (if length (cache m) \<le> maxSize then m
      else
        let sortedByAccess = sort_key snd (accessTimes m);
            toRemove = take (length (cache m) - maxSize) sortedByAccess
        in fold (\<lambda>(k, _) m'. MemoryCache_delete m' k) toRemove m)"

text \<open>
  The cache manager with the \<open>MEMORY\<close> strategy, which is the default configuration and
  the one of the module's shared instance \<open>cacheManager\<close>. (The other strategies keep
  their entries in the browser's storage and have no size bound.)
\<close>

record 'v CacheManager =
  defaultTTL :: int
  maxSize :: nat
  impl :: "'v MemoryCache"

definition CacheManager_new :: "'v CacheManager" where
  "CacheManager_new = \<lparr>defaultTTL = 3600000, maxSize = 100, impl = MemoryCache_new\<rparr>"

definition CacheManager_set :: "'v CacheManager \<Rightarrow> string \<Rightarrow> 'v \<Rightarrow> int option \<Rightarrow> int \<Rightarrow> 'v CacheManager" where
  "CacheManager_set cm k d t now =
     (let m = MemoryCache_set (impl cm) k d (case t of None \<Rightarrow> defaultTTL cm | Some t' \<Rightarrow> t') now
      in if MemoryCache_size m > maxSize cm
         then cm\<lparr>impl := MemoryCache_evictLRU m (maxSize cm)\<rparr>
         else cm\<lparr>impl := m\<rparr>)"

definition CacheManager_get :: "'v CacheManager \<Rightarrow> string \<Rightarrow> int \<Rightarrow> 'v option \<times> 'v CacheManager" where
  "CacheManager_get cm k now =
     (let (r, m) = MemoryCache_get (impl cm) k now in (r, cm\<lparr>impl := m\<rparr>))"

definition CacheManager_delete :: "'v CacheManager \<Rightarrow> string \<Rightarrow> 'v CacheManager" where
  "CacheManager_delete cm k = cm\<lparr>impl := MemoryCache_delete (impl cm) k\<rparr>"

definition CacheManager_clear :: "'v CacheManager \<Rightarrow> 'v CacheManager" where
  "CacheManager_clear cm = cm\<lparr>impl := MemoryCache_clear (impl cm)\<rparr>"

definition CacheManager_cleanup :: "'v CacheManager \<Rightarrow> int \<Rightarrow> 'v CacheManager" where
  "CacheManager_cleanup cm now = cm\<lparr>impl := MemoryCache_cleanup (impl cm) now\<rparr>"

text \<open>
  The two maps of a memory cache built by its own operations hold the same keys in the
  same order, each once.
\<close>

definition MemoryCache_wf :: "'v MemoryCache \<Rightarrow> bool" where
  "MemoryCache_wf m \<longleftrightarrow> distinct (map fst (cache m)) \<and> map fst (accessTimes m) = map fst (cache m)"

section \<open>Records, errors and the remote store\<close>

text \<open>
  A category or a bookmark is a JavaScript object whose fields hold scalars. It is
  modelled as an association list from field names to values, in the order the fields
  were added; a field that is absent reads as \<open>undefined\<close>, here \<open>None\<close>.
  Strict equality \<open>===\<close> on field values is equality of \<open>jsval option\<close>.
\<close>

datatype jsval = JStr string | JNum int | JBool bool | JNull

type_synonym obj = "(string \<times> jsval) list"

definition getProp :: "obj \<Rightarrow> string \<Rightarrow> jsval option" where
  "getProp ob k = map_of ob k"

fun truthy :: "jsval option \<Rightarrow> bool" where
  "truthy None = False"
| "truthy (Some JNull) = False"
| "truthy (Some (JBool b)) = b"
| "truthy (Some (JNum n)) = (n \<noteq> 0)"
| "truthy (Some (JStr s)) = (s \<noteq> [])"

text \<open>The object spread \<open>{...a, ...b}\<close>: the fields of \<open>b\<close> written over those of \<open>a\<close>.\<close>

definition spread :: "obj \<Rightarrow> obj \<Rightarrow> obj" where
  "spread a b = fold (\<lambda>(k, v). AList.update k v) b a"

text \<open>
  Errors (utils/error-handler.js). A message is kept as its template and the values put
  into it. \<open>parseError\<close> classifies a native error by keywords of its message text; none
  of the fixed messages below contains one, and the text of an error thrown by the store
  handle is not known, so its class is carried by the message.
\<close>

datatype ErrorType = NETWORK | TIMEOUT | VALIDATION | PERMISSION | NOT_FOUND | SERVER | UNKNOWN

datatype message =
    CategoryIdExists "jsval option"
  | CategoryMissing string
  | CategoryInUse string nat
  | SiteIdExists "jsval option"
  | SiteUrlExists "jsval option"
  | SiteMissing string
  | StaticModeNoSave
  | KVUnavailable
  | StoreFailure ErrorType
  | NotAnArray
  | NotAString
  | CategoryIncomplete obj
  | SiteIncomplete obj
  | DanglingCategory "jsval option" "jsval option"
  | DuplicateCategoryId
  | DuplicateSiteId

datatype exn = AppError message ErrorType | NativeError message

fun parseError :: "message \<Rightarrow> ErrorType" where
  "parseError (StoreFailure t) = t"
| "parseError _ = UNKNOWN"

fun handleError :: "exn \<Rightarrow> exn" where
  "handleError (AppError m t) = AppError m t"
| "handleError (NativeError m) = AppError m (parseError m)"

definition handleError_network :: "exn \<Rightarrow> exn" where
  "handleError_network e = handleError e"

definition handleError_generic :: "exn \<Rightarrow> exn" where
  "handleError_generic e = handleError e"

definition handleError_validation :: "message \<Rightarrow> exn" where
  "handleError_validation m = handleError (AppError m VALIDATION)"

fun errorType :: "exn \<Rightarrow> ErrorType option" where
  "errorType (AppError m t) = Some t"
| "errorType (NativeError m) = None"

text \<open>
  The remote key-value namespace is given by the hosting environment. A value is stored
  as JSON text; the documents the core stores are a collection (an array of records), the
  metadata record and the version record. \<open>JSON.stringify\<close> followed by \<open>JSON.parse\<close>
  gives back an equal document. The handle's \<open>get\<close> and \<open>put\<close> throw for the keys listed in
  \<open>failingGet\<close> and \<open>failingPut\<close>, with an error of class \<open>failureClass\<close>.
\<close>

datatype versionInfo = VersionInfo (version: string) (stamp: int) (compatible: "string list option")

datatype metaEntry = Counted "nat option" int | Migration string string int

datatype doc = Collection "obj list" | Metadata "(string \<times> metaEntry) list" | Version versionInfo

record kvNamespace =
  entries :: "(string \<times> doc) list"
  failingGet :: "string list"
  failingPut :: "string list"
  failureClass :: ErrorType

text \<open>
  Arrays are mutated in place (\<open>push\<close>, assignment to an index) and shared between the
  cache, the bundled dataset and the callers, so they live in a heap: a reference is an
  index into the list of allocated arrays. The metadata and version objects are held by
  value.
\<close>

type_synonym ref = nat

datatype jsvalue = ArrayRef ref | MetaObj "(string \<times> metaEntry) list" | VersionObj versionInfo

datatype DataSource = STATIC | KV | HYBRID

record state =
  heap :: "obj list list"
  cacheManager :: "jsvalue CacheManager"
  kv :: "kvNamespace option"
  isAvailable :: bool
  dataSource :: DataSource
  isInitialized :: bool

definition deref :: "obj list list \<Rightarrow> ref \<Rightarrow> obj list" where
  "deref h r = (if r < length h then h ! r else [])"

definition alloc :: "obj list list \<Rightarrow> obj list \<Rightarrow> ref \<times> obj list list" where
  "alloc h xs = (length h, h @ [xs])"

text \<open>The arrays \<open>categories\<close> and \<open>sites\<close> exported by the bundled dataset module.\<close>

definition staticCategories :: ref where
  "staticCategories = 0"

definition staticSites :: ref where
  "staticSites = 1"

fun stringify :: "obj list list \<Rightarrow> jsvalue \<Rightarrow> doc" where
  "stringify h (ArrayRef r) = Collection (deref h r)"
| "stringify h (MetaObj m) = Metadata m"
| "stringify h (VersionObj v) = Version v"

fun parse :: "obj list list \<Rightarrow> doc \<Rightarrow> jsvalue \<times> obj list list" where
  "parse h (Collection xs) = (let (r, h') = alloc h xs in (ArrayRef r, h'))"
| "parse h (Metadata m) = (MetaObj m, h)"
| "parse h (Version v) = (VersionObj v, h)"

text \<open>The shared cache instance behind the \<open>cache\<close> facade.\<close>

definition cache_get :: "state \<Rightarrow> string \<Rightarrow> int \<Rightarrow> jsvalue option \<times> state" where
  "cache_get s k now = (let (r, cm) = CacheManager_get (cacheManager s) k now in (r, s\<lparr>cacheManager := cm\<rparr>))"

definition cache_set :: "state \<Rightarrow> string \<Rightarrow> jsvalue \<Rightarrow> int \<Rightarrow> int \<Rightarrow> state" where
  "cache_set s k v t now = s\<lparr>cacheManager := CacheManager_set (cacheManager s) k v (Some t) now\<rparr>"

definition cache_delete :: "state \<Rightarrow> string \<Rightarrow> state" where
  "cache_delete s k = s\<lparr>cacheManager := CacheManager_delete (cacheManager s) k\<rparr>"

definition cache_clear :: "state \<Rightarrow> state" where
  "cache_clear s = s\<lparr>cacheManager := CacheManager_clear (cacheManager s)\<rparr>"

section \<open>The store adapter (data/kv-adapter.js)\<close>

definition KV_CATEGORIES :: string where
  "KV_CATEGORIES = ''bookmarks:categories''"

definition KV_SITES :: string where
  "KV_SITES = ''bookmarks:sites''"

definition KV_METADATA :: string where
  "KV_METADATA = ''bookmarks:metadata''"

definition KV_VERSION :: string where
  "KV_VERSION = ''data:version''"

definition DATA_VERSION_CURRENT :: string where
  "DATA_VERSION_CURRENT = ''1.0.0''"

definition DATA_VERSION_COMPATIBLE :: "string list" where
  "DATA_VERSION_COMPATIBLE = [''1.0.0'']"

definition isKVAvailable :: "state \<Rightarrow> bool" where
  "isKVAvailable s \<longleftrightarrow> isAvailable s \<and> kv s \<noteq> None"

definition kvAdapter_getCacheKey :: "string \<Rightarrow> string" where
  "kvAdapter_getCacheKey k = ''kv_'' @ k"

definition kvAdapter_cacheTTL :: int where
  "kvAdapter_cacheTTL = 300000"

text \<open>
  \<open>get(key, options)\<close> with \<open>options.skipCache\<close>; the value is read as JSON. Every
  exception raised inside is caught, passed to \<open>handleError.network\<close> and thrown again.
\<close>

definition kvAdapter_get :: "state \<Rightarrow> string \<Rightarrow> bool \<Rightarrow> int \<Rightarrow> (exn + jsvalue option) \<times> state" where
  "kvAdapter_get s k skipCache now =
     (case (if isAvailable s then kv s else None) of
        None \<Rightarrow> (Inl (handleError_network (NativeError KVUnavailable)), s)
      | Some ns \<Rightarrow>
          let (cachedData, s1) = cache_get s (kvAdapter_getCacheKey k) now
          in if cachedData \<noteq> None \<and> \<not> skipCache then (Inr cachedData, s1)
             else if k \<in> set (failingGet ns)
               then (Inl (handleError_network (NativeError (StoreFailure (failureClass ns)))), s1)
             else (case map_of (entries ns) k of
                     None \<Rightarrow> (Inr None, s1)
                   | Some d \<Rightarrow>
                       let (v, h) = parse (heap s1) d;
                           s2 = cache_set (s1\<lparr>heap := h\<rparr>) (kvAdapter_getCacheKey k) v kvAdapter_cacheTTL now
                       in (Inr (Some v), s2)))"

definition kvAdapter_set :: "state \<Rightarrow> string \<Rightarrow> jsvalue \<Rightarrow> int \<Rightarrow> (exn + unit) \<times> state" where
  "kvAdapter_set s k v now =
     (case (if isAvailable s then kv s else None) of
        None \<Rightarrow> (Inl (handleError_network (NativeError KVUnavailable)), s)
      | Some ns \<Rightarrow>
          if k \<in> set (failingPut ns)
            then (Inl (handleError_network (NativeError (StoreFailure (failureClass ns)))), s)
          else
            let s1 = s\<lparr>kv := Some (ns\<lparr>entries := AList.update k (stringify (heap s) v) (entries ns)\<rparr>)\<rparr>;
                s2 = cache_set s1 (kvAdapter_getCacheKey k) v kvAdapter_cacheTTL now
            in (Inr (), s2))"

text \<open>\<open>clearCache(key = null)\<close>: an empty string is falsy, as \<open>null\<close> is.\<close>

definition kvAdapter_clearCache :: "state \<Rightarrow> string option \<Rightarrow> state" where
  "kvAdapter_clearCache s k =
     (case k of
        None \<Rightarrow> cache_clear s
      | Some k' \<Rightarrow> if k' \<noteq> [] then cache_delete s (kvAdapter_getCacheKey k') else cache_clear s)"

definition getVersion :: "state \<Rightarrow> int \<Rightarrow> jsvalue \<times> state" where
  "getVersion s now =
     (case kvAdapter_get s KV_VERSION False now of
        (Inr (Some v), s') \<Rightarrow> (v, s')
      | (Inr None, s') \<Rightarrow> (VersionObj (VersionInfo DATA_VERSION_CURRENT now None), s')
      | (Inl e, s') \<Rightarrow> (VersionObj (VersionInfo DATA_VERSION_CURRENT now None), s'))"

definition setVersion :: "state \<Rightarrow> string \<Rightarrow> int \<Rightarrow> (exn + unit) \<times> state" where
  "setVersion s v now =
     kvAdapter_set s KV_VERSION (VersionObj (VersionInfo v now (Some DATA_VERSION_COMPATIBLE))) now"

text \<open>\<open>versionInfo.version\<close>: only a version record has the field.\<close>

fun versionOf :: "jsvalue \<Rightarrow> string option" where
  "versionOf (VersionObj v) = Some (version v)"
| "versionOf _ = None"

definition checkVersionCompatibility :: "state \<Rightarrow> int \<Rightarrow> bool \<times> state" where
  "checkVersionCompatibility s now =
     (let (versionInfo, s') = getVersion s now
      in (case versionOf versionInfo of
            None \<Rightarrow> (False, s')
          | Some currentVersion \<Rightarrow> (currentVersion \<in> set DATA_VERSION_COMPATIBLE, s')))"

section \<open>The data manager (data/data-manager.js)\<close>

definition dataManager_getCacheKey :: "string \<Rightarrow> string" where
  "dataManager_getCacheKey k = ''dm_'' @ k"

definition dataManager_cacheTTL :: int where
  "dataManager_cacheTTL = 600000"

text \<open>
  An asynchronous operation is modelled as one atomic step, and the clock is read once
  for the whole operation.
\<close>

definition init :: "state \<Rightarrow> int \<Rightarrow> state" where
  "init s now =
     (if isKVAvailable s then
        (let (isCompatible, s1) = checkVersionCompatibility s now
         in s1\<lparr>dataSource := (if isCompatible then KV else STATIC), isInitialized := True\<rparr>)
      else s\<lparr>dataSource := STATIC, isInitialized := True\<rparr>)"

definition ensureInitialized :: "state \<Rightarrow> int \<Rightarrow> state" where
  "ensureInitialized s now = (if \<not> isInitialized s then init s now else s)"

text \<open>
  \<open>getCategories\<close> and \<open>getSites\<close> are the same code up to the cache key, the store key
  and the bundled array; \<open>getData\<close> is that code. An error of the store is caught and
  the bundled array returned.
\<close>

definition getData :: "string \<Rightarrow> string \<Rightarrow> ref \<Rightarrow> state \<Rightarrow> bool \<Rightarrow> int \<Rightarrow> jsvalue \<times> state" where
  "getData name kvKey static s useCache now =
     (let s0 = ensureInitialized s now;
          cacheKey = dataManager_getCacheKey name;
          (cachedData, s1) = (if useCache then cache_get s0 cacheKey now else (None, s0))
      in case cachedData of
           Some c \<Rightarrow> (c, s1)
         | None \<Rightarrow>
             if dataSource s1 = KV then
               (case kvAdapter_get s1 kvKey False now of
                  (Inl e, s2) \<Rightarrow> (ArrayRef static, s2)
                | (Inr v, s2) \<Rightarrow>
                    let c = (case v of None \<Rightarrow> ArrayRef static | Some c' \<Rightarrow> c')
                    in (c, cache_set s2 cacheKey c dataManager_cacheTTL now))
             else (ArrayRef static, cache_set s1 cacheKey (ArrayRef static) dataManager_cacheTTL now))"

definition getCategories :: "state \<Rightarrow> bool \<Rightarrow> int \<Rightarrow> jsvalue \<times> state" where
  "getCategories s useCache now = getData ''categories'' KV_CATEGORIES staticCategories s useCache now"

definition getSites :: "state \<Rightarrow> bool \<Rightarrow> int \<Rightarrow> jsvalue \<times> state" where
  "getSites s useCache now = getData ''sites'' KV_SITES staticSites s useCache now"

text \<open>\<open>x.length\<close>: only an array has it.\<close>

fun lengthOf :: "obj list list \<Rightarrow> jsvalue \<Rightarrow> nat option" where
  "lengthOf h (ArrayRef r) = Some (length (deref h r))"
| "lengthOf h _ = None"

text \<open>
  \<open>updateMetadata\<close> swallows every error. The metadata object is held by value; a value
  of another shape found under the metadata key is written back as it is.
\<close>

definition updateMetadata :: "state \<Rightarrow> string \<Rightarrow> nat option \<Rightarrow> int \<Rightarrow> state" where
  "updateMetadata s type count now =
     (if dataSource s = KV then
        (case kvAdapter_get s KV_METADATA False now of
           (Inl e, s1) \<Rightarrow> s1
         | (Inr v, s1) \<Rightarrow>
             let metadata = (case v of None \<Rightarrow> MetaObj [] | Some m \<Rightarrow> m);
                 metadata' = (case metadata of
                                MetaObj m \<Rightarrow> MetaObj (AList.update type (Counted count now) m)
                              | other \<Rightarrow> other)
             in snd (kvAdapter_set s1 KV_METADATA metadata' now))
      else s)"

text \<open>\<open>saveCategories\<close> and \<open>saveSites\<close>, again the same code up to the names.\<close>

definition saveData :: "string \<Rightarrow> string \<Rightarrow> state \<Rightarrow> jsvalue \<Rightarrow> int \<Rightarrow> (exn + unit) \<times> state" where
  "saveData name kvKey s v now =
     (let s0 = ensureInitialized s now
      in if dataSource s0 = KV then
           (case kvAdapter_set s0 kvKey v now of
              (Inl e, s1) \<Rightarrow> (Inl (handleError_generic e), s1)
            | (Inr u, s1) \<Rightarrow>
                let s2 = cache_set s1 (dataManager_getCacheKey name) v dataManager_cacheTTL now;
                    s3 = updateMetadata s2 name (lengthOf (heap s2) v) now
                in (Inr (), s3))
         else (Inl (handleError_generic (NativeError StaticModeNoSave)), s0))"

definition saveCategories :: "state \<Rightarrow> jsvalue \<Rightarrow> int \<Rightarrow> (exn + unit) \<times> state" where
  "saveCategories s categories now = saveData ''categories'' KV_CATEGORIES s categories now"

definition saveSites :: "state \<Rightarrow> jsvalue \<Rightarrow> int \<Rightarrow> (exn + unit) \<times> state" where
  "saveSites s sites now = saveData ''sites'' KV_SITES s sites now"

fun findIndex :: "('a \<Rightarrow> bool) \<Rightarrow> 'a list \<Rightarrow> nat option" where
  "findIndex P [] = None"
| "findIndex P (x # xs) = (if P x then Some 0 else map_option Suc (findIndex P xs))"

text \<open>
  The write operations. \<open>push\<close> and the assignment to an index change the array that
  \<open>getCategories\<close> or \<open>getSites\<close> returned, in place; \<open>filter\<close> makes a new array. A
  method of arrays called on a value that is not an array is a \<open>TypeError\<close>.
\<close>

definition addCategory :: "state \<Rightarrow> obj \<Rightarrow> int \<Rightarrow> (exn + unit) \<times> state" where
  "addCategory s category now =
     (let (categories, s1) = getCategories s True now
      in case categories of
           ArrayRef r \<Rightarrow>
             if find (\<lambda>cat. getProp cat ''id'' = getProp category ''id'') (deref (heap s1) r) \<noteq> None
             then (Inl (handleError_validation (CategoryIdExists (getProp category ''id''))), s1)
             else saveCategories (s1\<lparr>heap := (heap s1)[r := deref (heap s1) r @ [category]]\<rparr>) categories now
         | _ \<Rightarrow> (Inl (NativeError NotAnArray), s1))"

definition updateCategory :: "state \<Rightarrow> string \<Rightarrow> obj \<Rightarrow> int \<Rightarrow> (exn + unit) \<times> state" where
  "updateCategory s categoryId updates now =
     (let (categories, s1) = getCategories s True now
      in case categories of
           ArrayRef r \<Rightarrow>
             (case findIndex (\<lambda>cat. getProp cat ''id'' = Some (JStr categoryId)) (deref (heap s1) r) of
                None \<Rightarrow> (Inl (handleError_validation (CategoryMissing categoryId)), s1)
              | Some index \<Rightarrow>
                  saveCategories
                    (s1\<lparr>heap := (heap s1)[r := (deref (heap s1) r)[index := spread (deref (heap s1) r ! index) updates]]\<rparr>)
                    categories now)
         | _ \<Rightarrow> (Inl (NativeError NotAnArray), s1))"

definition deleteCategory :: "state \<Rightarrow> string \<Rightarrow> int \<Rightarrow> (exn + unit) \<times> state" where
  "deleteCategory s categoryId now =
     (let (categories, s1) = getCategories s True now;
          (sites, s2) = getSites s1 True now
      in case sites of
           ArrayRef rs \<Rightarrow>
             (let sitesInCategory = filter (\<lambda>site. getProp site ''category'' = Some (JStr categoryId)) (deref (heap s2) rs)
              in if length sitesInCategory > 0
                 then (Inl (handleError_validation (CategoryInUse categoryId (length sitesInCategory))), s2)
                 else (case categories of
                         ArrayRef rc \<Rightarrow>
                           let (r', h) = alloc (heap s2)
                                 (filter (\<lambda>cat. getProp cat ''id'' \<noteq> Some (JStr categoryId)) (deref (heap s2) rc))
                           in saveCategories (s2\<lparr>heap := h\<rparr>) (ArrayRef r') now
                       | _ \<Rightarrow> (Inl (NativeError NotAnArray), s2)))
         | _ \<Rightarrow> (Inl (NativeError NotAnArray), s2))"

definition addSite :: "state \<Rightarrow> obj \<Rightarrow> int \<Rightarrow> (exn + unit) \<times> state" where
  "addSite s site now =
     (let (sites, s1) = getSites s True now
      in case sites of
           ArrayRef r \<Rightarrow>
             if find (\<lambda>x. getProp x ''id'' = getProp site ''id'') (deref (heap s1) r) \<noteq> None
             then (Inl (handleError_validation (SiteIdExists (getProp site ''id''))), s1)
             else if find (\<lambda>x. getProp x ''url'' = getProp site ''url'') (deref (heap s1) r) \<noteq> None
             then (Inl (handleError_validation (SiteUrlExists (getProp site ''url''))), s1)
             else saveSites (s1\<lparr>heap := (heap s1)[r := deref (heap s1) r @ [site]]\<rparr>) sites now
         | _ \<Rightarrow> (Inl (NativeError NotAnArray), s1))"

definition updateSite :: "state \<Rightarrow> string \<Rightarrow> obj \<Rightarrow> int \<Rightarrow> (exn + unit) \<times> state" where
  "updateSite s siteId updates now =
     (let (sites, s1) = getSites s True now
      in case sites of
           ArrayRef r \<Rightarrow>
             (case findIndex (\<lambda>site. getProp site ''id'' = Some (JStr siteId)) (deref (heap s1) r) of
                None \<Rightarrow> (Inl (handleError_validation (SiteMissing siteId)), s1)
              | Some index \<Rightarrow>
                  saveSites
                    (s1\<lparr>heap := (heap s1)[r := (deref (heap s1) r)[index := spread (deref (heap s1) r ! index) updates]]\<rparr>)
                    sites now)
         | _ \<Rightarrow> (Inl (NativeError NotAnArray), s1))"

definition deleteSite :: "state \<Rightarrow> string \<Rightarrow> int \<Rightarrow> (exn + unit) \<times> state" where
  "deleteSite s siteId now =
     (let (sites, s1) = getSites s True now
      in case sites of
           ArrayRef r \<Rightarrow>
             (let filteredSites = filter (\<lambda>site. getProp site ''id'' \<noteq> Some (JStr siteId)) (deref (heap s1) r)
              in if length filteredSites = length (deref (heap s1) r)
                 then (Inl (handleError_validation (SiteMissing siteId)), s1)
                 else (let (r', h) = alloc (heap s1) filteredSites
                       in saveSites (s1\<lparr>heap := h\<rparr>) (ArrayRef r') now))
         | _ \<Rightarrow> (Inl (NativeError NotAnArray), s1))"

definition dataManager_clearCache :: "state \<Rightarrow> string option \<Rightarrow> state" where
  "dataManager_clearCache s t =
     (let both = cache_delete (cache_delete s (dataManager_getCacheKey ''categories''))
                   (dataManager_getCacheKey ''sites'')
      in case t of
           None \<Rightarrow> both
         | Some t' \<Rightarrow> if t' \<noteq> [] then cache_delete s (dataManager_getCacheKey t') else both)"










section \<open>The migration tool (data/migration-tool.js)\<close>



datatype MigrationStatus = NOT_STARTED | IN_PROGRESS | COMPLETED | FAILED

datatype logLevel = LogInfo | LogWarn | LogError

datatype logMessage =
    Starting
  | CheckingPrerequisites
  | PrerequisitesPassed
  | PrerequisitesFailed message
  | ValidatingData
  | ValidationPassed
  | ValidationFailed message
  | OverwritingExisting
  | MigratingCategories nat
  | MigratingSites nat
  | MigrationCompleted
  | MigrationFailed message

text \<open>The log entries are kept without their time stamps.\<close>

record MigrationTool =
  status :: MigrationStatus
  progress :: nat
  errors :: "message list"
  migrationLog :: "(logLevel \<times> logMessage) list"

definition MigrationTool_new :: MigrationTool where
  "MigrationTool_new = \<lparr>status = NOT_STARTED, progress = 0, errors = [], migrationLog = []\<rparr>"

definition log :: "MigrationTool \<Rightarrow> logMessage \<Rightarrow> logLevel \<Rightarrow> MigrationTool" where
  "log mt msg level = mt\<lparr>migrationLog := migrationLog mt @ [(level, msg)]\<rparr>"

fun messageOf :: "exn \<Rightarrow> message" where
  "messageOf (AppError m t) = m"
| "messageOf (NativeError m) = m"

text \<open>
  \<open>checkPrerequisites\<close>: the bundled arrays exist and are arrays in every state of the
  model, so only the availability of the store can fail.
\<close>

definition checkPrerequisites :: "MigrationTool \<Rightarrow> state \<Rightarrow> bool \<times> MigrationTool" where
  "checkPrerequisites mt s =
     (let mt1 = log mt CheckingPrerequisites LogInfo
      in if \<not> isKVAvailable s then (False, log mt1 (PrerequisitesFailed KVUnavailable) LogError)
         else (True, log mt1 PrerequisitesPassed LogInfo))"

text \<open>The checks of \<open>validateData\<close> in their order; the result is the first error thrown.\<close>

fun checkCategories :: "obj list \<Rightarrow> message option" where
  "checkCategories [] = None"
| "checkCategories (category # rest) =
     (if \<not> truthy (getProp category ''id'') \<or> \<not> truthy (getProp category ''name'')
      then Some (CategoryIncomplete category)
      else checkCategories rest)"

fun checkSites :: "obj list \<Rightarrow> obj list \<Rightarrow> message option" where
  "checkSites categories [] = None"
| "checkSites categories (site # rest) =
     (if \<not> truthy (getProp site ''id'') \<or> \<not> truthy (getProp site ''title'')
         \<or> \<not> truthy (getProp site ''url'') \<or> \<not> truthy (getProp site ''category'')
      then Some (SiteIncomplete site)
      else if find (\<lambda>cat. getProp cat ''id'' = getProp site ''category'') categories = None
      then Some (DanglingCategory (getProp site ''title'') (getProp site ''category''))
      else checkSites categories rest)"

definition validationError :: "obj list \<Rightarrow> obj list \<Rightarrow> message option" where
  "validationError categories sites =
     (case checkCategories categories of
        Some e \<Rightarrow> Some e
      | None \<Rightarrow>
          (case checkSites categories sites of
             Some e \<Rightarrow> Some e
           | None \<Rightarrow>
               let categoryIds = map (\<lambda>cat. getProp cat ''id'') categories;
                   siteIds = map (\<lambda>site. getProp site ''id'') sites
               in if length (remdups categoryIds) \<noteq> length categoryIds then Some DuplicateCategoryId
                  else if length (remdups siteIds) \<noteq> length siteIds then Some DuplicateSiteId
                  else None))"

definition validateData :: "MigrationTool \<Rightarrow> obj list \<Rightarrow> obj list \<Rightarrow> bool \<times> MigrationTool" where
  "validateData mt categories sites =
     (let mt1 = log mt ValidatingData LogInfo
      in case validationError categories sites of
           None \<Rightarrow> (True, log mt1 ValidationPassed LogInfo)
         | Some e \<Rightarrow> (False, (log mt1 (ValidationFailed e) LogError)\<lparr>errors := errors mt1 @ [e]\<rparr>))"

text \<open>The \<open>catch\<close> block of \<open>migrateToKV\<close>.\<close>

definition migrationFailed :: "MigrationTool \<Rightarrow> exn \<Rightarrow> MigrationTool" where
  "migrationFailed mt e =
     (let mt1 = log (mt\<lparr>status := FAILED\<rparr>) (MigrationFailed (messageOf e)) LogError
      in mt1\<lparr>errors := errors mt1 @ [messageOf e]\<rparr>)"

text \<open>
  \<open>migrateToKV\<close>; \<open>dataVersion\<close> is the version string of the bundled dataset module.
\<close>

definition migrateToKV :: "string \<Rightarrow> MigrationTool \<Rightarrow> state \<Rightarrow> int \<Rightarrow> bool \<times> MigrationTool \<times> state" where
  "migrateToKV dataVersion mt s now =
     (let mt0 = log (mt\<lparr>status := IN_PROGRESS, progress := 0, errors := [], migrationLog := []\<rparr>) Starting LogInfo;
          (ok, mt1) = checkPrerequisites mt0 s
      in if \<not> ok then (False, mt1\<lparr>status := FAILED\<rparr>, s)
      else
        let (valid, mt2) = validateData (mt1\<lparr>progress := 10\<rparr>)
                             (deref (heap s) staticCategories) (deref (heap s) staticSites)
        in if \<not> valid then (False, mt2\<lparr>status := FAILED\<rparr>, s)
        else
          (case kvAdapter_get s KV_CATEGORIES False now of
             (Inl e, s1) \<Rightarrow> (False, migrationFailed (mt2\<lparr>progress := 20\<rparr>) e, s1)
           | (Inr existingCategories, s1) \<Rightarrow>
          (case kvAdapter_get s1 KV_SITES False now of
             (Inl e, s2) \<Rightarrow> (False, migrationFailed (mt2\<lparr>progress := 20\<rparr>) e, s2)
           | (Inr existingSites, s2) \<Rightarrow>
          let mt3 = (if existingCategories \<noteq> None \<or> existingSites \<noteq> None
                     then log (mt2\<lparr>progress := 20\<rparr>) OverwritingExisting LogWarn
                     else mt2\<lparr>progress := 20\<rparr>);
              mt4 = log (mt3\<lparr>progress := 30\<rparr>)
                      (MigratingCategories (length (deref (heap s2) staticCategories))) LogInfo
          in
          (case kvAdapter_set s2 KV_CATEGORIES (ArrayRef staticCategories) now of
             (Inl e, s3) \<Rightarrow> (False, migrationFailed mt4 e, s3)
           | (Inr u3, s3) \<Rightarrow>
          let mt5 = log (mt4\<lparr>progress := 50\<rparr>)
                      (MigratingSites (length (deref (heap s3) staticSites))) LogInfo
          in
          (case kvAdapter_set s3 KV_SITES (ArrayRef staticSites) now of
             (Inl e, s4) \<Rightarrow> (False, migrationFailed mt5 e, s4)
           | (Inr u4, s4) \<Rightarrow>
          let metadata = MetaObj
                [(''categories'', Counted (Some (length (deref (heap s4) staticCategories))) now),
                 (''sites'', Counted (Some (length (deref (heap s4) staticSites))) now),
                 (''migration'', Migration dataVersion DATA_VERSION_CURRENT now)]
          in
          (case kvAdapter_set s4 KV_METADATA metadata now of
             (Inl e, s5) \<Rightarrow> (False, migrationFailed (mt5\<lparr>progress := 70\<rparr>) e, s5)
           | (Inr u5, s5) \<Rightarrow>
          (case setVersion s5 DATA_VERSION_CURRENT now of
             (Inl e, s6) \<Rightarrow> (False, migrationFailed (mt5\<lparr>progress := 85\<rparr>) e, s6)
           | (Inr u6, s6) \<Rightarrow>
          let s7 = dataManager_clearCache s6 None;
              mt6 = log (mt5\<lparr>progress := 100, status := COMPLETED\<rparr>) MigrationCompleted LogInfo
          in (True, mt6, s7))))))))"

section \<open>The search as the specification words it\<close>



section \<open>What a state holds, and how an operation may change it\<close>

text \<open>The cache entry under a key (expired or not), and the document the store has under a key.\<close>

definition centry :: "state \<Rightarrow> string \<Rightarrow> jsvalue CacheEntry option" where
  "centry s k = map_of (cache (impl (cacheManager s))) k"

definition sentry :: "state \<Rightarrow> string \<Rightarrow> doc option" where
  "sentry s k = (case kv s of None \<Rightarrow> None | Some ns \<Rightarrow> map_of (entries ns) k)"

text \<open>
  \<open>evolves CK SK s s'\<close>: from \<open>s\<close> to \<open>s'\<close> no allocated array has changed (new ones may
  have been allocated), the mode and the store handle's behaviour are the same, every
  cache entry outside the keys \<open>CK\<close> is as it was or gone, and every document of the store
  outside the keys \<open>SK\<close> is as it was (the whole store, when \<open>SK\<close> is empty).
\<close>

definition evolves :: "string set \<Rightarrow> string set \<Rightarrow> state \<Rightarrow> state \<Rightarrow> bool" where
  "evolves CK SK s s' \<longleftrightarrow>
     take (length (heap s)) (heap s') = heap s \<and>
     isAvailable s' = isAvailable s \<and> dataSource s' = dataSource s \<and> isInitialized s' = isInitialized s \<and>
     map_option failingGet (kv s') = map_option failingGet (kv s) \<and>
     map_option failingPut (kv s') = map_option failingPut (kv s) \<and>
     map_option failureClass (kv s') = map_option failureClass (kv s) \<and>
     (\<forall>k. k \<notin> CK \<longrightarrow> centry s' k = None \<or> centry s' k = centry s k) \<and>
     (\<forall>k. k \<notin> SK \<longrightarrow> sentry s' k = sentry s k) \<and>
     (SK = {} \<longrightarrow> kv s' = kv s)"

text \<open>\<open>holds s k xs\<close>: a cache entry under \<open>k\<close>, if there is one, refers to an array with the content \<open>xs\<close>.\<close>

definition holds :: "state \<Rightarrow> string \<Rightarrow> obj list \<Rightarrow> bool" where
  "holds s k xs \<longleftrightarrow>
     (\<forall>e. centry s k = Some e \<longrightarrow> (\<exists>r. data e = ArrayRef r \<and> r < length (heap s) \<and> heap s ! r = xs))"

definition refs_at :: "state \<Rightarrow> string \<Rightarrow> ref set" where
  "refs_at s k = {r. \<exists>e. centry s k = Some e \<and> data e = ArrayRef r}"

text \<open>
  The collection as the store has it, the bundled array standing in while the store has
  no document under the key.
\<close>

definition stored :: "string \<Rightarrow> ref \<Rightarrow> state \<Rightarrow> obj list" where
  "stored kvKey static s =
     (case sentry s kvKey of Some (Collection xs) \<Rightarrow> xs | _ \<Rightarrow> deref (heap s) static)"

definition categoriesOf :: "state \<Rightarrow> obj list" where
  "categoriesOf s = stored KV_CATEGORIES staticCategories s"

definition sitesOf :: "state \<Rightarrow> obj list" where
  "sitesOf s = stored KV_SITES staticSites s"

text \<open>
  A collection is coherent when the store's document is a collection (or missing) and
  the data manager's and the adapter's cache entries for it refer to arrays with the
  content of \<^const>\<open>stored\<close>.
\<close>

definition coherent_coll :: "string \<Rightarrow> string \<Rightarrow> ref \<Rightarrow> state \<Rightarrow> bool" where
  "coherent_coll name kvKey static s \<longleftrightarrow>
     (case sentry s kvKey of None \<Rightarrow> True | Some d \<Rightarrow> (case d of Collection xs \<Rightarrow> True | _ \<Rightarrow> False)) \<and>
     static < length (heap s) \<and>
     holds s (dataManager_getCacheKey name) (stored kvKey static s) \<and>
     holds s (kvAdapter_getCacheKey kvKey) (stored kvKey static s)"

definition refs_of :: "string \<Rightarrow> string \<Rightarrow> ref \<Rightarrow> state \<Rightarrow> ref set" where
  "refs_of name kvKey static s =
     insert static (refs_at s (dataManager_getCacheKey name) \<union> refs_at s (kvAdapter_getCacheKey kvKey))"

text \<open>
  The data manager is initialized in \<open>KV\<close> mode and the store's reads and writes
  of the two collections work.
\<close>

definition kv_ready :: "state \<Rightarrow> bool" where
  "kv_ready s \<longleftrightarrow>
     isInitialized s \<and> dataSource s = KV \<and> isAvailable s \<and>
     (case kv s of
        None \<Rightarrow> False
      | Some ns \<Rightarrow> KV_CATEGORIES \<notin> set (failingGet ns) \<and> KV_SITES \<notin> set (failingGet ns) \<and>
                  KV_CATEGORIES \<notin> set (failingPut ns) \<and> KV_SITES \<notin> set (failingPut ns))"

definition coherent :: "state \<Rightarrow> bool" where
  "coherent s \<longleftrightarrow>
     kv_ready s \<and>
     coherent_coll ''categories'' KV_CATEGORIES staticCategories s \<and>
     coherent_coll ''sites'' KV_SITES staticSites s \<and>
     refs_of ''categories'' KV_CATEGORIES staticCategories s \<inter> refs_of ''sites'' KV_SITES staticSites s = {}"

text \<open>The invariants of the data model, on the two collections.\<close>

definition uniqueIds :: "obj list \<Rightarrow> bool" where
  "uniqueIds xs \<longleftrightarrow> distinct (map (\<lambda>x. getProp x ''id'') xs)"

definition uniqueUrls :: "obj list \<Rightarrow> bool" where
  "uniqueUrls xs \<longleftrightarrow> distinct (map (\<lambda>x. getProp x ''url'') xs)"

definition referencesExist :: "obj list \<Rightarrow> obj list \<Rightarrow> bool" where
  "referencesExist categories sites \<longleftrightarrow>
     list_all (\<lambda>site. find (\<lambda>cat. getProp cat ''id'' = getProp site ''category'') categories \<noteq> None) sites"

definition uniqueness :: "state \<Rightarrow> bool" where
  "uniqueness s \<longleftrightarrow> uniqueIds (categoriesOf s) \<and> uniqueIds (sitesOf s) \<and> uniqueUrls (sitesOf s)"

definition invariants :: "state \<Rightarrow> bool" where
  "invariants s \<longleftrightarrow> uniqueness s \<and> referencesExist (categoriesOf s) (sitesOf s)"

text \<open>
  The data manager is initialized in \<open>STATIC\<close> mode, and what it has cached are the
  bundled arrays.
\<close>

definition static_mode :: "state \<Rightarrow> bool" where
  "static_mode s \<longleftrightarrow>
     isInitialized s \<and> dataSource s = STATIC \<and>
     (\<forall>e. centry s (dataManager_getCacheKey ''categories'') = Some e \<longrightarrow> data e = ArrayRef staticCategories) \<and>
     (\<forall>e. centry s (dataManager_getCacheKey ''sites'') = Some e \<longrightarrow> data e = ArrayRef staticSites)"

definition bundledCategories :: "state \<Rightarrow> obj list" where
  "bundledCategories s = deref (heap s) staticCategories"

definition bundledSites :: "state \<Rightarrow> obj list" where
  "bundledSites s = deref (heap s) staticSites"

text \<open>
  \<open>unchanged s s'\<close>: the two collections, the store and every allocated array (the
  bundled ones among them) are in \<open>s'\<close> what they were in \<open>s\<close>.
\<close>

definition unchanged :: "state \<Rightarrow> state \<Rightarrow> bool" where
  "unchanged s s' \<longleftrightarrow>
     categoriesOf s' = categoriesOf s \<and> sitesOf s' = sitesOf s \<and> kv s' = kv s \<and>
     take (length (heap s)) (heap s') = heap s"

text \<open>
  Sequences of the four calls of the invariant: each call with the time it is made at.
  \<open>categoryKnown\<close> says that the category of a bookmark to be added exists.
\<close>

datatype call = AddCategory obj | AddSite obj | DeleteCategory string | DeleteSite string

fun perform :: "state \<Rightarrow> call \<Rightarrow> int \<Rightarrow> (exn + unit) \<times> state" where
  "perform s (AddCategory category) now = addCategory s category now"
| "perform s (AddSite site) now = addSite s site now"
| "perform s (DeleteCategory categoryId) now = deleteCategory s categoryId now"
| "perform s (DeleteSite siteId) now = deleteSite s siteId now"

fun run :: "state \<Rightarrow> (call \<times> int) list \<Rightarrow> state" where
  "run s [] = s"
| "run s ((c, now) # rest) = run (snd (perform s c now)) rest"

fun categoryKnown :: "state \<Rightarrow> call \<Rightarrow> bool" where
  "categoryKnown s (AddSite site) =
     (find (\<lambda>cat. getProp cat ''id'' = getProp site ''category'') (categoriesOf s) \<noteq> None)"
| "categoryKnown s _ = True"

fun categoriesKnown :: "state \<Rightarrow> (call \<times> int) list \<Rightarrow> bool" where
  "categoriesKnown s [] = True"
| "categoriesKnown s ((c, now) # rest) = (categoryKnown s c \<and> categoriesKnown (snd (perform s c now)) rest)"

section \<open>Example states\<close>


text \<open>
  A bundled dataset of one category and one bookmark: without a store (\<open>STATIC\<close> mode),
  and with an empty store (\<open>KV\<close> mode).
\<close>

definition dev :: obj where
  "dev = [(''id'', JStr ''dev''), (''name'', JStr ''Dev''), (''icon'', JStr ''pc'')]"

definition gh :: obj where
  "gh = [(''id'', JStr ''gh''), (''title'', JStr ''GitHub''), (''url'', JStr ''gh.io''),
         (''description'', JStr ''Git''), (''shortDesc'', JStr ''Code''), (''category'', JStr ''dev'')]"

text \<open>A bookmark whose category does not exist, and a second category.\<close>

definition orphan :: obj where
  "orphan = [(''id'', JStr ''x''), (''title'', JStr ''X''), (''url'', JStr ''x.io''),
             (''description'', JStr ''x''), (''shortDesc'', JStr ''x''), (''category'', JStr ''nope'')]"

definition tools :: obj where
  "tools = [(''id'', JStr ''tools''), (''name'', JStr ''Tools'')]"

definition static_example :: state where
  "static_example =
     \<lparr>heap = [[dev], [gh]], cacheManager = CacheManager_new, kv = None, isAvailable = False,
      dataSource = STATIC, isInitialized = True\<rparr>"

definition empty_store :: kvNamespace where
  "empty_store = \<lparr>entries = [], failingGet = [], failingPut = [], failureClass = NETWORK\<rparr>"

definition kv_example :: state where
  "kv_example =
     \<lparr>heap = [[dev], [gh]], cacheManager = CacheManager_new, kv = Some empty_store, isAvailable = True,
      dataSource = KV, isInitialized = True\<rparr>"

text \<open>
  A store whose version record is of a version that is not compatible, read at start-up:
  once with a working store, once with a store whose read of the record fails.
\<close>

definition old_version_store :: kvNamespace where
  "old_version_store = empty_store\<lparr>entries := [(KV_VERSION, Version (VersionInfo ''0.9.0'' 0 None))]\<rparr>"

definition old_version_example :: state where
  "old_version_example = kv_example\<lparr>kv := Some old_version_store, dataSource := STATIC, isInitialized := False\<rparr>"

definition unreadable_version_example :: state where
  "unreadable_version_example =
     old_version_example\<lparr>kv := Some (old_version_store\<lparr>failingGet := [KV_VERSION]\<rparr>)\<rparr>"

text \<open>A bundled dataset in which two categories have the same id.\<close>

definition duplicate_example :: state where
  "duplicate_example = kv_example\<lparr>heap := [[dev, dev], [gh]]\<rparr>"

text \<open>A store that refuses the write of the bookmarks.\<close>

definition sites_unwritable_example :: state where
  "sites_unwritable_example = kv_example\<lparr>kv := Some (empty_store\<lparr>failingPut := [KV_SITES]\<rparr>)\<rparr>"

text \<open>A cache with an entry of the data manager and an entry of the store adapter.\<close>

definition two_users_example :: state where
  "two_users_example =
     cache_set (cache_set kv_example ''dm_categories'' (ArrayRef 0) 600000 0) ''kv_x'' (ArrayRef 1) 300000 0"

section \<open>Properties of the cache\<close>

lemma wf_new: "MemoryCache_wf MemoryCache_new"
  by (simp add: MemoryCache_wf_def MemoryCache_new_def)


lemma wf_delete: "MemoryCache_wf m \<Longrightarrow> MemoryCache_wf (MemoryCache_delete m k)"
  by (simp add: MemoryCache_wf_def MemoryCache_delete_def distinct_delete delete_keys distinct_removeAll)

lemma wf_get:
  assumes "MemoryCache_wf m"
  shows "MemoryCache_wf (snd (MemoryCache_get m k now))"
proof (cases "map_of (cache m) k")
  case None
  then show ?thesis using assms by (simp add: MemoryCache_get_def)
next
  case (Some e)
  then have "k \<in> set (map fst (cache m))" by (auto dest: map_of_SomeD intro: rev_image_eqI)
  then show ?thesis using Some assms wf_delete[of m k]
    by (auto simp: MemoryCache_get_def MemoryCache_wf_def update_keys)
qed

lemma length_delete_distinct:
  "distinct (map fst al) \<Longrightarrow> k \<in> fst ` set al \<Longrightarrow> Suc (length (AList.delete k al)) = length al"
  by (induction al) (auto simp: AList.delete_id)

text \<open>
  C6. After \<open>set(k, v, ttl)\<close> at time \<open>created\<close>, a \<open>get(k)\<close> at a time \<open>now\<close> with
  \<open>now - created \<le> ttl\<close> returns \<open>v\<close>. A \<open>get(k)\<close> with \<open>now - created > ttl\<close> returns
  absent and deletes the entry: the key is gone, and the size of the cache is one less
  than before the read.
\<close>

theorem ttl_set_get:
  "(now - created \<le> t \<longrightarrow> fst (MemoryCache_get (MemoryCache_set m k v t created) k now) = Some v) \<and>
   (now - created > t \<longrightarrow>
      fst (MemoryCache_get (MemoryCache_set m k v t created) k now) = None \<and>
      map_of (cache (snd (MemoryCache_get (MemoryCache_set m k v t created) k now))) k = None \<and>
      (MemoryCache_wf m \<longrightarrow>
         Suc (MemoryCache_size (snd (MemoryCache_get (MemoryCache_set m k v t created) k now)))
           = MemoryCache_size (MemoryCache_set m k v t created)))"
  by (auto simp: MemoryCache_get_def MemoryCache_set_def MemoryCache_delete_def MemoryCache_size_def
      update_conv' delete_conv' MemoryCache_wf_def length_delete_distinct distinct_update dom_update)

theorem ttl_set_get_witness:
  "fst (MemoryCache_get (MemoryCache_set MemoryCache_new ''k'' (7::nat) 1000 0) ''k'' 1000) = Some 7 \<and>
   fst (MemoryCache_get (MemoryCache_set MemoryCache_new ''k'' (7::nat) 1000 0) ''k'' 1001) = None \<and>
   map_of (cache (snd (MemoryCache_get (MemoryCache_set MemoryCache_new ''k'' (7::nat) 1000 0) ''k'' 1001))) ''k'' = None \<and>
   MemoryCache_size (MemoryCache_set MemoryCache_new ''k'' (7::nat) 1000 0) = 1 \<and>
   MemoryCache_size (snd (MemoryCache_get (MemoryCache_set MemoryCache_new ''k'' (7::nat) 1000 0) ''k'' 1001)) = 0"
proof -
  have fresh: "(1000::int) - 0 \<le> 1000" and expired: "(1001::int) - 0 > 1000" by simp_all
  have sz: "MemoryCache_size (MemoryCache_set MemoryCache_new ''k'' (7::nat) 1000 0) = 1"
    by (simp add: MemoryCache_size_def MemoryCache_set_def MemoryCache_new_def)
  have a: "fst (MemoryCache_get (MemoryCache_set MemoryCache_new ''k'' (7::nat) 1000 0) ''k'' 1000) = Some 7"
    using ttl_set_get[of 1000 0 1000 MemoryCache_new "''k''" "7::nat"] fresh by blast
  have b: "fst (MemoryCache_get (MemoryCache_set MemoryCache_new ''k'' (7::nat) 1000 0) ''k'' 1001) = None \<and>
      map_of (cache (snd (MemoryCache_get (MemoryCache_set MemoryCache_new ''k'' (7::nat) 1000 0) ''k'' 1001))) ''k'' = None \<and>
      Suc (MemoryCache_size (snd (MemoryCache_get (MemoryCache_set MemoryCache_new ''k'' (7::nat) 1000 0) ''k'' 1001)))
        = MemoryCache_size (MemoryCache_set MemoryCache_new ''k'' (7::nat) 1000 0)"
    using ttl_set_get[of 1001 0 1000 MemoryCache_new "''k''" "7::nat"] expired wf_new[where 'a=nat] by blast
  from a b sz show ?thesis by simp
qed









section \<open>Properties of the store adapter\<close>

lemmas cache_defs = cache_get_def cache_set_def cache_delete_def cache_clear_def
  CacheManager_get_def CacheManager_set_def CacheManager_delete_def CacheManager_clear_def CacheManager_new_def
  MemoryCache_get_def MemoryCache_set_def MemoryCache_delete_def MemoryCache_clear_def MemoryCache_new_def
  MemoryCache_size_def MemoryCache_evictLRU_def

lemmas example_defs = static_example_def kv_example_def empty_store_def dev_def gh_def

lemmas key_defs = KV_CATEGORIES_def KV_SITES_def KV_METADATA_def KV_VERSION_def
  kvAdapter_getCacheKey_def dataManager_getCacheKey_def kvAdapter_cacheTTL_def dataManager_cacheTTL_def
  staticCategories_def staticSites_def DATA_VERSION_CURRENT_def DATA_VERSION_COMPATIBLE_def

text \<open>
  C10. \<open>clearCache()\<close> without a key empties the shared cache: no entry of any user is
  left, so a read of an entry of the data manager (\<open>dm_\<close>) misses. \<open>clearCache(k)\<close> with a
  key deletes the adapter's entry \<open>kv_k\<close> and leaves every other entry, the data
  manager's among them, as it was.
\<close>

theorem clearCache_clears_everything:
  "cache (impl (cacheManager (kvAdapter_clearCache s None))) = [] \<and>
   accessTimes (impl (cacheManager (kvAdapter_clearCache s None))) = [] \<and>
   fst (cache_get (kvAdapter_clearCache s None) (dataManager_getCacheKey name) now) = None \<and>
   (k \<noteq> [] \<longrightarrow>
      (\<forall>k'. map_of (cache (impl (cacheManager (kvAdapter_clearCache s (Some k))))) k' =
             (if k' = kvAdapter_getCacheKey k then None else map_of (cache (impl (cacheManager s))) k')) \<and>
      map_of (cache (impl (cacheManager (kvAdapter_clearCache s (Some k))))) (dataManager_getCacheKey name)
        = map_of (cache (impl (cacheManager s))) (dataManager_getCacheKey name))"
  by (auto simp: kvAdapter_clearCache_def cache_defs delete_conv' kvAdapter_getCacheKey_def
      dataManager_getCacheKey_def)

theorem clearCache_clears_everything_witness:
  "fst (cache_get two_users_example ''dm_categories'' 1) = Some (ArrayRef 0) \<and>
   fst (cache_get (kvAdapter_clearCache two_users_example None) ''dm_categories'' 1) = None \<and>
   ''x'' \<noteq> [] \<and>
   map_of (cache (impl (cacheManager (kvAdapter_clearCache two_users_example (Some ''x''))))) ''dm_categories''
     = map_of (cache (impl (cacheManager two_users_example))) ''dm_categories'' \<and>
   map_of (cache (impl (cacheManager (kvAdapter_clearCache two_users_example (Some ''x''))))) ''kv_x'' = None"
proof -
  have ne: "''x'' \<noteq> []" by simp
  have a: "fst (cache_get two_users_example ''dm_categories'' 1) = Some (ArrayRef 0)"
    by (simp add: two_users_example_def cache_defs example_defs)
  note t = clearCache_clears_everything[of two_users_example "''categories''" 1 "''x''"]
  have b: "fst (cache_get (kvAdapter_clearCache two_users_example None) ''dm_categories'' 1) = None"
    using t by (simp add: dataManager_getCacheKey_def)
  have c: "map_of (cache (impl (cacheManager (kvAdapter_clearCache two_users_example (Some ''x''))))) ''dm_categories''
     = map_of (cache (impl (cacheManager two_users_example))) ''dm_categories''"
    using t ne by (simp add: dataManager_getCacheKey_def kvAdapter_getCacheKey_def)
  have d: "map_of (cache (impl (cacheManager (kvAdapter_clearCache two_users_example (Some ''x''))))) ''kv_x'' = None"
    using t ne by (simp add: dataManager_getCacheKey_def kvAdapter_getCacheKey_def)
  from ne a b c d show ?thesis by simp
qed

lemma fst_kvAdapter_get:
  assumes "isAvailable s" "kv s = Some ns"
  shows "fst (kvAdapter_get s k False now) =
    (case fst (cache_get s (kvAdapter_getCacheKey k) now) of
       Some v \<Rightarrow> Inr (Some v)
     | None \<Rightarrow> if k \<in> set (failingGet ns) then Inl (AppError (StoreFailure (failureClass ns)) (failureClass ns))
               else (case map_of (entries ns) k of None \<Rightarrow> Inr None
                     | Some d \<Rightarrow> Inr (Some (fst (parse (heap s) d)))))"
proof -
  have h: "heap (snd (cache_get s (kvAdapter_getCacheKey k) now)) = heap s"
    by (simp add: cache_get_def split: prod.splits)
  show ?thesis using assms h
    by (auto simp: kvAdapter_get_def handleError_network_def Let_def split: prod.splits option.splits)
qed

lemma versionOf_parse:
  "versionOf (fst (parse h d)) = (case d of Version vi \<Rightarrow> Some (version vi) | _ \<Rightarrow> None)"
  by (cases d) (auto simp: alloc_def)

text \<open>
  C8, as amended. With a store handle present, \<open>checkVersionCompatibility\<close> answers from
  the version record the adapter reads: the cached record if the adapter's cache holds a
  fresh one, else the stored record. It returns true iff that record's version is one of
  the compatible versions, where the current version stands in when no record is stored
  and also when the read of the record fails. \<open>init\<close> selects \<open>KV\<close> only when the store is
  available and the check returned true, and \<open>STATIC\<close> otherwise.
\<close>

theorem version_gate:
  "(isAvailable s \<and> kv s = Some ns \<longrightarrow>
      fst (checkVersionCompatibility s now) =
        (case fst (cache_get s (kvAdapter_getCacheKey KV_VERSION) now) of
           Some v \<Rightarrow> (case versionOf v of None \<Rightarrow> False | Some c \<Rightarrow> c \<in> set DATA_VERSION_COMPATIBLE)
         | None \<Rightarrow>
             if KV_VERSION \<in> set (failingGet ns) then DATA_VERSION_CURRENT \<in> set DATA_VERSION_COMPATIBLE
             else (case map_of (entries ns) KV_VERSION of
                     None \<Rightarrow> DATA_VERSION_CURRENT \<in> set DATA_VERSION_COMPATIBLE
                   | Some d \<Rightarrow> (case d of Version vi \<Rightarrow> version vi \<in> set DATA_VERSION_COMPATIBLE | _ \<Rightarrow> False)))) \<and>
   dataSource (init s now) = (if isKVAvailable s \<and> fst (checkVersionCompatibility s now) then KV else STATIC)"
proof -
  have a: "fst (checkVersionCompatibility s now) =
        (case fst (cache_get s (kvAdapter_getCacheKey KV_VERSION) now) of
           Some v \<Rightarrow> (case versionOf v of None \<Rightarrow> False | Some c \<Rightarrow> c \<in> set DATA_VERSION_COMPATIBLE)
         | None \<Rightarrow>
             if KV_VERSION \<in> set (failingGet ns) then DATA_VERSION_CURRENT \<in> set DATA_VERSION_COMPATIBLE
             else (case map_of (entries ns) KV_VERSION of
                     None \<Rightarrow> DATA_VERSION_CURRENT \<in> set DATA_VERSION_COMPATIBLE
                   | Some d \<Rightarrow> (case d of Version vi \<Rightarrow> version vi \<in> set DATA_VERSION_COMPATIBLE | _ \<Rightarrow> False)))"
    if av: "isAvailable s" "kv s = Some ns"
  proof -
    note g = fst_kvAdapter_get[OF av, of KV_VERSION now]
    obtain r s' where r: "kvAdapter_get s KV_VERSION False now = (r, s')"
      by (cases "kvAdapter_get s KV_VERSION False now")
    show ?thesis using g r
      by (auto simp: checkVersionCompatibility_def getVersion_def versionOf_parse
          split: option.splits sum.splits prod.splits if_splits doc.splits)
  qed
  have b: "dataSource (init s now) = (if isKVAvailable s \<and> fst (checkVersionCompatibility s now) then KV else STATIC)"
    by (auto simp: init_def split: prod.splits)
  from a b show ?thesis by blast
qed

lemma old_version_state:
  "isAvailable old_version_example" "kv old_version_example = Some old_version_store"
  "isKVAvailable old_version_example"
  "fst (cache_get old_version_example (kvAdapter_getCacheKey KV_VERSION) 1) = None"
  "KV_VERSION \<notin> set (failingGet old_version_store)"
  "map_of (entries old_version_store) KV_VERSION = Some (Version (VersionInfo ''0.9.0'' 0 None))"
  "''0.9.0'' \<notin> set DATA_VERSION_COMPATIBLE"
  by (simp_all add: old_version_example_def old_version_store_def example_defs cache_defs key_defs
      isKVAvailable_def)

theorem version_gate_witness:
  "isAvailable old_version_example \<and> kv old_version_example = Some old_version_store \<and>
   map_of (entries old_version_store) KV_VERSION = Some (Version (VersionInfo ''0.9.0'' 0 None)) \<and>
   fst (checkVersionCompatibility old_version_example 1) = False \<and>
   dataSource (init old_version_example 1) = STATIC"
  using version_gate[of old_version_example old_version_store 1] old_version_state
  by simp

text \<open>
  The claim as stated fails where the read of the version record fails: the stored
  record has the version 0.9.0, which is not compatible, the check returns true and the
  data manager selects the store.
\<close>

theorem version_gate_counterexample:
  "isKVAvailable unreadable_version_example \<and>
   map_of (entries (the (kv unreadable_version_example))) KV_VERSION
     = Some (Version (VersionInfo ''0.9.0'' 0 None)) \<and>
   ''0.9.0'' \<notin> set DATA_VERSION_COMPATIBLE \<and>
   fst (checkVersionCompatibility unreadable_version_example 1) = True \<and>
   dataSource (init unreadable_version_example 1) = KV"
  by (simp add: unreadable_version_example_def old_version_example_def old_version_store_def example_defs
      checkVersionCompatibility_def getVersion_def kvAdapter_get_def init_def isKVAvailable_def
      handleError_network_def cache_defs key_defs Let_def)

section \<open>How the operations change a state\<close>

lemma evolves_refl: "evolves CK SK s s"
  by (simp add: evolves_def)

lemma take_take_prefix:
  assumes "take (length a) b = a" "take (length b) c = b"
  shows "take (length a) c = a"
proof -
  have "length a \<le> length b" using assms(1) by (metis length_take min.cobounded2 min.commute)
  then have "take (length a) c = take (length a) (take (length b) c)" by (simp add: min_def)
  then show ?thesis using assms by simp
qed

lemma evolves_trans:
  assumes "evolves A B s s'" "evolves A' B' s' s''"
  shows "evolves (A \<union> A') (B \<union> B') s s''"
  using assms unfolding evolves_def
  apply (intro conjI)
          apply (metis take_take_prefix)
         apply simp_all
   apply metis
  done

lemma evolves_mono: "evolves A B s s' \<Longrightarrow> A \<subseteq> A' \<Longrightarrow> B \<subseteq> B' \<Longrightarrow> evolves A' B' s s'"
  unfolding evolves_def by blast

lemma fold_delete_cache:
  "map_of (cache (fold (\<lambda>(k, _) m'. MemoryCache_delete m' k) xs m)) k' =
     (if k' \<in> fst ` set xs then None else map_of (cache m) k')"
proof (induction xs arbitrary: m)
  case Nil
  then show ?case by simp
next
  case (Cons x xs)
  obtain a b where x: "x = (a, b)" by (cases x)
  show ?case using Cons.IH[of "MemoryCache_delete m a"]
    by (auto simp: x MemoryCache_delete_def delete_conv')
qed

lemma evictLRU_entry:
  "map_of (cache (MemoryCache_evictLRU m n)) k = None \<or>
   map_of (cache (MemoryCache_evictLRU m n)) k = map_of (cache m) k"
  by (simp add: MemoryCache_evictLRU_def Let_def fold_delete_cache)

lemma CacheManager_set_entry:
  "map_of (cache (impl (CacheManager_set cm k v t now))) k' = None \<or>
   map_of (cache (impl (CacheManager_set cm k v t now))) k' =
     (if k' = k then Some \<lparr>data = v, timestamp = now, ttl = (case t of None \<Rightarrow> defaultTTL cm | Some t' \<Rightarrow> t'), key = k\<rparr>
      else map_of (cache (impl cm)) k')"
proof -
  let ?m = "MemoryCache_set (impl cm) k v (case t of None \<Rightarrow> defaultTTL cm | Some t' \<Rightarrow> t') now"
  have m: "map_of (cache ?m) k' =
     (if k' = k then Some \<lparr>data = v, timestamp = now, ttl = (case t of None \<Rightarrow> defaultTTL cm | Some t' \<Rightarrow> t'), key = k\<rparr>
      else map_of (cache (impl cm)) k')"
    by (simp add: MemoryCache_set_def update_conv')
  show ?thesis using evictLRU_entry[of ?m "maxSize cm" k'] m
    by (auto simp: CacheManager_set_def Let_def)
qed

lemma CacheManager_get_entry:
  "CacheManager_get cm k now = (r, cm') \<Longrightarrow>
   (\<forall>k'. map_of (cache (impl cm')) k' = None \<or> map_of (cache (impl cm')) k' = map_of (cache (impl cm)) k') \<and>
   (r = None \<or> (\<exists>e. map_of (cache (impl cm)) k = Some e \<and> r = Some (data e) \<and> map_of (cache (impl cm')) k = Some e))"
  by (auto simp: CacheManager_get_def MemoryCache_get_def MemoryCache_delete_def delete_conv'
      split: option.splits if_splits)

lemma cache_get_ev:
  assumes "cache_get s k now = (r, s')"
  shows "evolves {} {} s s'"
    and "r = None \<or> (\<exists>e. centry s k = Some e \<and> r = Some (data e) \<and> centry s' k = Some e)"
    and "heap s' = heap s" and "kv s' = kv s"
proof -
  obtain cm' where c: "CacheManager_get (cacheManager s) k now = (r, cm')" and s': "s' = s\<lparr>cacheManager := cm'\<rparr>"
    using assms by (auto simp: cache_get_def split: prod.splits)
  note e = CacheManager_get_entry[OF c]
  show "evolves {} {} s s'" using e by (simp add: evolves_def s' centry_def sentry_def)
  show "r = None \<or> (\<exists>e. centry s k = Some e \<and> r = Some (data e) \<and> centry s' k = Some e)"
    using e by (simp add: s' centry_def)
  show "heap s' = heap s" "kv s' = kv s" by (simp_all add: s')
qed

lemma cache_set_ev:
  shows "evolves {k} {} s (cache_set s k v t now)"
    and "centry (cache_set s k v t now) k = None \<or> (\<exists>e. centry (cache_set s k v t now) k = Some e \<and> data e = v)"
    and "heap (cache_set s k v t now) = heap s" and "kv (cache_set s k v t now) = kv s"
proof -
  have e: "\<forall>k'. k' \<noteq> k \<longrightarrow> centry (cache_set s k v t now) k' = None \<or> centry (cache_set s k v t now) k' = centry s k'"
  proof (intro allI impI)
    fix k' assume "k' \<noteq> k"
    then show "centry (cache_set s k v t now) k' = None \<or> centry (cache_set s k v t now) k' = centry s k'"
      using CacheManager_set_entry[of "cacheManager s" k v "Some t" now k']
      by (simp add: cache_set_def centry_def)
  qed
  show "evolves {k} {} s (cache_set s k v t now)"
    using e by (simp add: evolves_def) (simp add: cache_set_def sentry_def)
  show "centry (cache_set s k v t now) k = None \<or> (\<exists>e. centry (cache_set s k v t now) k = Some e \<and> data e = v)"
    using CacheManager_set_entry[of "cacheManager s" k v "Some t" now k] by (auto simp: cache_set_def centry_def)
  show "heap (cache_set s k v t now) = heap s" "kv (cache_set s k v t now) = kv s"
    by (simp_all add: cache_set_def)
qed

lemma parse_heap:
  "parse h d = (v, h') \<Longrightarrow>
     take (length h) h' = h \<and>
     (case d of Collection xs \<Rightarrow> v = ArrayRef (length h) \<and> h' = h @ [xs]
      | Metadata m \<Rightarrow> v = MetaObj m \<and> h' = h
      | Version vi \<Rightarrow> v = VersionObj vi \<and> h' = h)"
  by (cases d) (auto simp: alloc_def)

lemma evolves_heap_update:
  "take (length (heap s)) h = heap s \<Longrightarrow> evolves {} {} s (s\<lparr>heap := h\<rparr>)"
  by (simp add: evolves_def centry_def sentry_def)

lemma centry_heap_update [simp]: "centry (s\<lparr>heap := h\<rparr>) k = centry s k"
  by (simp add: centry_def)

lemma sentry_heap_update [simp]: "sentry (s\<lparr>heap := h\<rparr>) k = sentry s k"
  by (simp add: sentry_def)

lemma kvAdapter_get_unavailable:
  "\<not> (isAvailable s \<and> kv s \<noteq> None) \<Longrightarrow>
   kvAdapter_get s k sc now = (Inl (AppError KVUnavailable UNKNOWN), s)"
  by (auto simp: kvAdapter_get_def handleError_network_def split: option.splits)

lemma kvAdapter_get_ev:
  assumes g: "kvAdapter_get s k False now = (res, s')"
  shows "evolves {kvAdapter_getCacheKey k} {} s s'"
    and "isAvailable s \<Longrightarrow> kv s = Some ns \<Longrightarrow>
         (case res of
            Inl e \<Rightarrow> k \<in> set (failingGet ns)
          | Inr None \<Rightarrow> sentry s k = None \<and> heap s' = heap s \<and> evolves {} {} s s'
          | Inr (Some v) \<Rightarrow>
              (\<exists>e. centry s (kvAdapter_getCacheKey k) = Some e \<and> data e = v \<and>
                    centry s' (kvAdapter_getCacheKey k) = Some e \<and> heap s' = heap s) \<or>
              (\<exists>d. sentry s k = Some d \<and> parse (heap s) d = (v, heap s') \<and>
                   (centry s' (kvAdapter_getCacheKey k) = None \<or>
                    (\<exists>e. centry s' (kvAdapter_getCacheKey k) = Some e \<and> data e = v))))"
proof -
  let ?ck = "kvAdapter_getCacheKey k"
  show ev: "evolves {?ck} {} s s'"
  proof (cases "isAvailable s \<and> kv s \<noteq> None")
    case False
    then show ?thesis using g kvAdapter_get_unavailable[of s k False now]
      by (simp add: evolves_refl)
  next
    case True
    then obtain ns where ns: "kv s = Some ns" and av: "isAvailable s" by auto
    obtain r s1 where c: "cache_get s ?ck now = (r, s1)" by (cases "cache_get s ?ck now")
    note e1 = cache_get_ev[OF c]
    show ?thesis
    proof (cases "r \<noteq> None \<or> k \<in> set (failingGet ns) \<or> map_of (entries ns) k = None")
      case True
      then have "s' = s1" using g ns av c
        by (auto simp: kvAdapter_get_def Let_def split: option.splits if_splits)
      then show ?thesis using e1(1) evolves_mono by blast
    next
      case False
      then obtain d where d: "map_of (entries ns) k = Some d" by auto
      obtain v h where p: "parse (heap s1) d = (v, h)" by (cases "parse (heap s1) d")
      have s': "s' = cache_set (s1\<lparr>heap := h\<rparr>) ?ck v kvAdapter_cacheTTL now"
        using g ns av c False d p by (auto simp: kvAdapter_get_def Let_def)
      have "evolves {} {} s1 (s1\<lparr>heap := h\<rparr>)"
        using parse_heap[OF p] by (intro evolves_heap_update) simp
      from evolves_trans[OF e1(1) this] have "evolves {} {} s (s1\<lparr>heap := h\<rparr>)" by simp
      from evolves_trans[OF this cache_set_ev(1)[of ?ck "s1\<lparr>heap := h\<rparr>" v kvAdapter_cacheTTL now]]
      show ?thesis by (simp add: s')
    qed
  qed
  show "(case res of
            Inl e \<Rightarrow> k \<in> set (failingGet ns)
          | Inr None \<Rightarrow> sentry s k = None \<and> heap s' = heap s \<and> evolves {} {} s s'
          | Inr (Some v) \<Rightarrow>
              (\<exists>e. centry s ?ck = Some e \<and> data e = v \<and> centry s' ?ck = Some e \<and> heap s' = heap s) \<or>
              (\<exists>d. sentry s k = Some d \<and> parse (heap s) d = (v, heap s') \<and>
                   (centry s' ?ck = None \<or> (\<exists>e. centry s' ?ck = Some e \<and> data e = v))))"
    if av: "isAvailable s" and ns: "kv s = Some ns"
  proof -
    obtain r s1 where c: "cache_get s ?ck now = (r, s1)" by (cases "cache_get s ?ck now")
    note e1 = cache_get_ev[OF c]
    show ?thesis
    proof (cases r)
      case (Some v)
      then have "res = Inr (Some v)" "s' = s1" using g ns av c
        by (auto simp: kvAdapter_get_def Let_def)
      then show ?thesis using e1(2) e1(3) Some by auto
    next
      case None
      show ?thesis
      proof (cases "k \<in> set (failingGet ns)")
        case True
        then show ?thesis using g ns av c None
          by (auto simp: kvAdapter_get_def Let_def)
      next
        case nf: False
        show ?thesis
        proof (cases "map_of (entries ns) k")
          case n2: None
          then have "res = Inr None" "s' = s1" using g ns av c None nf
            by (auto simp: kvAdapter_get_def Let_def)
          then show ?thesis using n2 ns e1(3) e1(1) by (simp add: sentry_def)
        next
          case (Some d)
          obtain v h where p: "parse (heap s1) d = (v, h)" by (cases "parse (heap s1) d")
          have s': "s' = cache_set (s1\<lparr>heap := h\<rparr>) ?ck v kvAdapter_cacheTTL now" and res: "res = Inr (Some v)"
            using g ns av c None nf Some p by (auto simp: kvAdapter_get_def Let_def)
          have hs: "heap s' = h" by (simp add: s' cache_set_ev(3))
          have "sentry s k = Some d" using Some ns by (simp add: sentry_def)
          moreover have "parse (heap s) d = (v, heap s')" using p e1(3) hs by simp
          moreover have "centry s' ?ck = None \<or> (\<exists>e. centry s' ?ck = Some e \<and> data e = v)"
            unfolding s' by (rule cache_set_ev(2))
          ultimately show ?thesis using res by auto
        qed
      qed
    qed
  qed
qed

lemma kvAdapter_set_ev:
  assumes g: "kvAdapter_set s k v now = (res, s')"
  shows "evolves {kvAdapter_getCacheKey k} {k} s s'"
    and "res = Inr () \<Longrightarrow> sentry s' k = Some (stringify (heap s) v) \<and> heap s' = heap s \<and>
           (centry s' (kvAdapter_getCacheKey k) = None \<or>
            (\<exists>e. centry s' (kvAdapter_getCacheKey k) = Some e \<and> data e = v))"
    and "res \<noteq> Inr () \<Longrightarrow> s' = s"
    and "isAvailable s \<Longrightarrow> kv s = Some ns \<Longrightarrow> k \<notin> set (failingPut ns) \<Longrightarrow> res = Inr ()"
proof -
  let ?ck = "kvAdapter_getCacheKey k"
  show "res \<noteq> Inr () \<Longrightarrow> s' = s"
    using g by (auto simp: kvAdapter_set_def Let_def split: option.splits if_splits)
  show "isAvailable s \<Longrightarrow> kv s = Some ns \<Longrightarrow> k \<notin> set (failingPut ns) \<Longrightarrow> res = Inr ()"
    using g by (auto simp: kvAdapter_set_def Let_def split: option.splits if_splits)
  have ok: "\<exists>ns. kv s = Some ns \<and>
      s' = cache_set (s\<lparr>kv := Some (ns\<lparr>entries := AList.update k (stringify (heap s) v) (entries ns)\<rparr>)\<rparr>)
             ?ck v kvAdapter_cacheTTL now" if "res = Inr ()"
    using g that by (auto simp: kvAdapter_set_def Let_def split: option.splits if_splits)
  show "sentry s' k = Some (stringify (heap s) v) \<and> heap s' = heap s \<and>
           (centry s' ?ck = None \<or> (\<exists>e. centry s' ?ck = Some e \<and> data e = v))" if r: "res = Inr ()"
  proof -
    from ok[OF r] obtain ns where ns: "kv s = Some ns" and
      s': "s' = cache_set (s\<lparr>kv := Some (ns\<lparr>entries := AList.update k (stringify (heap s) v) (entries ns)\<rparr>)\<rparr>)
             ?ck v kvAdapter_cacheTTL now" by blast
    show ?thesis unfolding s'
      using cache_set_ev(2)[of "s\<lparr>kv := Some (ns\<lparr>entries := AList.update k (stringify (heap s) v) (entries ns)\<rparr>)\<rparr>" ?ck v kvAdapter_cacheTTL now]
      by (simp add: cache_set_ev(3) sentry_def cache_set_ev(4) update_conv')
  qed
  show "evolves {?ck} {k} s s'"
  proof (cases "res = Inr ()")
    case False
    then have "s' = s" using g by (auto simp: kvAdapter_set_def Let_def split: option.splits if_splits)
    then show ?thesis by (simp add: evolves_refl)
  next
    case True
    from ok[OF True] obtain ns where ns: "kv s = Some ns" and
      s': "s' = cache_set (s\<lparr>kv := Some (ns\<lparr>entries := AList.update k (stringify (heap s) v) (entries ns)\<rparr>)\<rparr>)
             ?ck v kvAdapter_cacheTTL now" by blast
    have a: "evolves {} {k} s (s\<lparr>kv := Some (ns\<lparr>entries := AList.update k (stringify (heap s) v) (entries ns)\<rparr>)\<rparr>)"
      using ns by (simp add: evolves_def centry_def sentry_def update_conv')
    from evolves_trans[OF a cache_set_ev(1)] show ?thesis by (simp add: s')
  qed
qed

lemma cache_keys_distinct [simp]:
  "dataManager_getCacheKey a \<noteq> kvAdapter_getCacheKey b"
  "kvAdapter_getCacheKey b \<noteq> dataManager_getCacheKey a"
  "(kvAdapter_getCacheKey a = kvAdapter_getCacheKey b) = (a = b)"
  "(dataManager_getCacheKey a = dataManager_getCacheKey b) = (a = b)"
  by (simp_all add: dataManager_getCacheKey_def kvAdapter_getCacheKey_def)

lemma kv_keys_distinct [simp]:
  "KV_CATEGORIES \<noteq> KV_SITES" "KV_SITES \<noteq> KV_CATEGORIES"
  "KV_CATEGORIES \<noteq> KV_METADATA" "KV_METADATA \<noteq> KV_CATEGORIES"
  "KV_SITES \<noteq> KV_METADATA" "KV_METADATA \<noteq> KV_SITES"
  "staticCategories \<noteq> staticSites" "staticSites \<noteq> staticCategories"
  by (simp_all add: KV_CATEGORIES_def KV_SITES_def KV_METADATA_def staticCategories_def staticSites_def)

lemma heap_ext_nth:
  assumes "take (length h) h' = h" "r < length h"
  shows "h' ! r = h ! r" and "r < length h'"
proof -
  have "length h \<le> length h'" using assms(1) by (metis length_take min.cobounded2 min.commute)
  then show "r < length h'" using assms(2) by simp
  have "take (length h) h' ! r = h' ! r" using assms(2) by simp
  then show "h' ! r = h ! r" using assms(1) by simp
qed

lemma take_length_le: "take (length h) h' = h \<Longrightarrow> length h \<le> length h'"
  by (metis length_take min.cobounded2 min.commute)

lemma evolvesD:
  assumes "evolves CK SK s s'"
  shows "take (length (heap s)) (heap s') = heap s"
    and "isAvailable s' = isAvailable s" and "dataSource s' = dataSource s" and "isInitialized s' = isInitialized s"
    and "k \<notin> CK \<Longrightarrow> centry s' k = None \<or> centry s' k = centry s k"
    and "k \<notin> SK \<Longrightarrow> sentry s' k = sentry s k"
    and "r < length (heap s) \<Longrightarrow> heap s' ! r = heap s ! r \<and> r < length (heap s')"
    and "length (heap s) \<le> length (heap s')"
proof -
  show t: "take (length (heap s)) (heap s') = heap s" using assms by (simp add: evolves_def)
  show "isAvailable s' = isAvailable s" "dataSource s' = dataSource s" "isInitialized s' = isInitialized s"
    using assms by (simp_all add: evolves_def)
  show "k \<notin> CK \<Longrightarrow> centry s' k = None \<or> centry s' k = centry s k" using assms by (simp add: evolves_def)
  show "k \<notin> SK \<Longrightarrow> sentry s' k = sentry s k" using assms by (simp add: evolves_def)
  show "r < length (heap s) \<Longrightarrow> heap s' ! r = heap s ! r \<and> r < length (heap s')"
    using heap_ext_nth[OF t, of r] by simp
  show "length (heap s) \<le> length (heap s')" by (rule take_length_le[OF t])
qed

lemma evolves_kv:
  assumes "evolves CK SK s s'" "kv s = Some ns"
  shows "\<exists>ns'. kv s' = Some ns' \<and> failingGet ns' = failingGet ns \<and> failingPut ns' = failingPut ns"
  using assms by (auto simp: evolves_def)

lemma deref_evolves:
  "evolves CK SK s s' \<Longrightarrow> r < length (heap s) \<Longrightarrow> deref (heap s') r = deref (heap s) r"
  using evolvesD(7)[of CK SK s s' r] by (simp add: deref_def)

lemma stored_evolves:
  "evolves CK SK s s' \<Longrightarrow> k \<notin> SK \<Longrightarrow> st < length (heap s) \<Longrightarrow> stored k st s' = stored k st s"
  using evolvesD(6)[of CK SK s s' k] deref_evolves[of CK SK s s' st]
  by (simp add: stored_def split: option.splits doc.splits)

lemma holds_evolves:
  assumes "holds s k xs" "evolves CK SK s s'" "k \<notin> CK"
  shows "holds s' k xs"
  unfolding holds_def
proof (intro allI impI)
  fix e assume e: "centry s' k = Some e"
  with evolvesD(5)[OF assms(2,3)] have "centry s k = Some e" by auto
  with assms(1) obtain r where r: "data e = ArrayRef r" "r < length (heap s)" "heap s ! r = xs"
    by (auto simp: holds_def)
  with evolvesD(7)[OF assms(2), of r]
  show "\<exists>r. data e = ArrayRef r \<and> r < length (heap s') \<and> heap s' ! r = xs" by auto
qed

lemma holds_new:
  assumes "centry s k = None \<or> (\<exists>e. centry s k = Some e \<and> data e = ArrayRef r)"
    "r < length (heap s)" "heap s ! r = xs"
  shows "holds s k xs"
  using assms by (auto simp: holds_def)

lemma refs_at_evolves:
  "evolves CK SK s s' \<Longrightarrow> k \<notin> CK \<Longrightarrow> refs_at s' k \<subseteq> refs_at s k"
  using evolvesD(5)[of CK SK s s' k] by (auto simp: refs_at_def)

lemma refs_at_new:
  "centry s k = None \<or> (\<exists>e. centry s k = Some e \<and> data e = ArrayRef r) \<Longrightarrow> refs_at s k \<subseteq> {r}"
  by (auto simp: refs_at_def)

lemma refs_at_bound: "holds s k xs \<Longrightarrow> r \<in> refs_at s k \<Longrightarrow> r < length (heap s)"
  by (auto simp: holds_def refs_at_def)

lemma coherent_coll_evolves:
  assumes "coherent_coll n k st s" "evolves CK SK s s'"
    "dataManager_getCacheKey n \<notin> CK" "kvAdapter_getCacheKey k \<notin> CK" "k \<notin> SK"
  shows "coherent_coll n k st s'" and "stored k st s' = stored k st s"
    and "refs_of n k st s' \<subseteq> refs_of n k st s"
proof -
  have st: "st < length (heap s)" using assms(1) by (simp add: coherent_coll_def)
  show eq: "stored k st s' = stored k st s" by (rule stored_evolves[OF assms(2,5) st])
  show "coherent_coll n k st s'"
    using assms(1) evolvesD(6)[OF assms(2,5)] evolvesD(7)[OF assms(2) st] eq
      holds_evolves[OF _ assms(2,3)] holds_evolves[OF _ assms(2,4)]
    by (simp add: coherent_coll_def)
  show "refs_of n k st s' \<subseteq> refs_of n k st s"
    using refs_at_evolves[OF assms(2,3)] refs_at_evolves[OF assms(2,4)]
    by (auto simp: refs_of_def)
qed

lemma updateMetadata_ev:
  "evolves {kvAdapter_getCacheKey KV_METADATA} {KV_METADATA} s (updateMetadata s t c now)"
proof (cases "dataSource s = KV")
  case False
  then show ?thesis by (simp add: updateMetadata_def evolves_refl)
next
  case True
  obtain res s1 where g: "kvAdapter_get s KV_METADATA False now = (res, s1)"
    by (cases "kvAdapter_get s KV_METADATA False now")
  note e1 = kvAdapter_get_ev(1)[OF g]
  show ?thesis
  proof (cases res)
    case (Inl e)
    then have "updateMetadata s t c now = s1" using True g by (simp add: updateMetadata_def)
    then show ?thesis using e1 evolves_mono by fastforce
  next
    case (Inr v)
    then obtain m where u: "updateMetadata s t c now = snd (kvAdapter_set s1 KV_METADATA m now)"
      using True g by (simp add: updateMetadata_def Let_def)
    obtain r2 s2 where k: "kvAdapter_set s1 KV_METADATA m now = (r2, s2)"
      by (cases "kvAdapter_set s1 KV_METADATA m now")
    from evolves_trans[OF e1 kvAdapter_set_ev(1)[OF k]] show ?thesis by (simp add: u k)
  qed
qed

lemma evolves_trans':
  assumes "evolves A B s s'" "evolves A' B' s' s''" "A \<union> A' \<subseteq> C" "B \<union> B' \<subseteq> D"
  shows "evolves C D s s''"
  by (rule evolves_mono[OF evolves_trans[OF assms(1,2)] assms(3,4)])

lemma saveData_ok:
  assumes i: "isInitialized s" and d: "dataSource s = KV" and av: "isAvailable s" and ns: "kv s = Some ns"
    and nf: "kvKey \<notin> set (failingPut ns)" and nm: "kvKey \<noteq> KV_METADATA"
  shows "\<exists>s'. saveData name kvKey s v now = (Inr (), s') \<and>
           evolves {dataManager_getCacheKey name, kvAdapter_getCacheKey kvKey, kvAdapter_getCacheKey KV_METADATA}
                   {kvKey, KV_METADATA} s s' \<and>
           sentry s' kvKey = Some (stringify (heap s) v) \<and>
           (\<forall>k\<in>{dataManager_getCacheKey name, kvAdapter_getCacheKey kvKey}.
               centry s' k = None \<or> (\<exists>e. centry s' k = Some e \<and> data e = v))"
proof -
  let ?dm = "dataManager_getCacheKey name" and ?kk = "kvAdapter_getCacheKey kvKey"
  let ?km = "kvAdapter_getCacheKey KV_METADATA"
  obtain res s1 where k: "kvAdapter_set s kvKey v now = (res, s1)" by (cases "kvAdapter_set s kvKey v now")
  have res: "res = Inr ()" by (rule kvAdapter_set_ev(4)[OF k av ns nf])
  note e1 = kvAdapter_set_ev(1)[OF k] and p1 = kvAdapter_set_ev(2)[OF k res]
  define s2 where "s2 = cache_set s1 ?dm v dataManager_cacheTTL now"
  define s3 where "s3 = updateMetadata s2 name (lengthOf (heap s2) v) now"
  have sd: "saveData name kvKey s v now = (Inr (), s3)"
    using i d k res by (simp add: saveData_def ensureInitialized_def Let_def s2_def s3_def)
  have e2: "evolves {?dm} {} s1 s2" unfolding s2_def by (rule cache_set_ev(1))
  have e3: "evolves {?km} {KV_METADATA} s2 s3" unfolding s3_def by (rule updateMetadata_ev)
  have e12: "evolves {?kk, ?dm} {kvKey} s s2" by (rule evolves_trans'[OF e1 e2]) auto
  have ev: "evolves {?dm, ?kk, ?km} {kvKey, KV_METADATA} s s3"
    by (rule evolves_trans'[OF e12 e3]) auto
  have st: "sentry s3 kvKey = Some (stringify (heap s) v)"
    using evolvesD(6)[OF e3, of kvKey] evolvesD(6)[OF e2, of kvKey] p1 nm by simp
  have c2dm: "centry s2 ?dm = None \<or> (\<exists>e. centry s2 ?dm = Some e \<and> data e = v)"
    unfolding s2_def by (rule cache_set_ev(2))
  have c2kk: "centry s2 ?kk = None \<or> (\<exists>e. centry s2 ?kk = Some e \<and> data e = v)"
    using evolvesD(5)[OF e2, of ?kk] p1 by auto
  have c3dm: "centry s3 ?dm = None \<or> (\<exists>e. centry s3 ?dm = Some e \<and> data e = v)"
    using evolvesD(5)[OF e3, of ?dm] c2dm by auto
  have c3kk: "centry s3 ?kk = None \<or> (\<exists>e. centry s3 ?kk = Some e \<and> data e = v)"
    using evolvesD(5)[OF e3, of ?kk] c2kk nm by auto
  show ?thesis using sd ev st c3dm c3kk by auto
qed

lemma coherent_coll_stored:
  assumes "coherent_coll n k st s"
  shows "sentry s k = None \<Longrightarrow> stored k st s = heap s ! st"
    and "sentry s k = Some d \<Longrightarrow> d = Collection (stored k st s)"
  using assms by (auto simp: coherent_coll_def stored_def deref_def split: doc.splits)

lemma getData_coherent:
  assumes i: "isInitialized s" and d: "dataSource s = KV" and av: "isAvailable s" and ns: "kv s = Some ns"
    and nf: "kvKey \<notin> set (failingGet ns)"
    and coh: "coherent_coll name kvKey static s"
  shows "\<exists>r s'. getData name kvKey static s u now = (ArrayRef r, s') \<and>
           evolves {dataManager_getCacheKey name, kvAdapter_getCacheKey kvKey} {} s s' \<and>
           r < length (heap s') \<and> heap s' ! r = stored kvKey static s \<and>
           coherent_coll name kvKey static s' \<and> stored kvKey static s' = stored kvKey static s \<and>
           r \<in> refs_of name kvKey static s \<union> {r. length (heap s) \<le> r} \<and>
           refs_of name kvKey static s' \<subseteq> insert r (refs_of name kvKey static s)"
proof -
  let ?dm = "dataManager_getCacheKey name" and ?kk = "kvAdapter_getCacheKey kvKey"
  let ?xs = "stored kvKey static s"
  have st: "static < length (heap s)" and hdm: "holds s ?dm ?xs" and hkk: "holds s ?kk ?xs"
    using coh by (simp_all add: coherent_coll_def)
  obtain r1 s1 where c: "(if u then cache_get s ?dm now else (None, s)) = (r1, s1)"
    by (cases "(if u then cache_get s ?dm now else (None, s))")
  have e1: "evolves {} {} s s1" and h1: "heap s1 = heap s" and k1: "kv s1 = kv s"
    and r1: "r1 = None \<or> (\<exists>e. centry s ?dm = Some e \<and> r1 = Some (data e) \<and> centry s1 ?dm = Some e)"
    using c cache_get_ev[of s ?dm now r1 s1] by (auto simp: evolves_refl split: if_splits)
  have coh1: "coherent_coll name kvKey static s1" and sto1: "stored kvKey static s1 = ?xs"
    and ref1: "refs_of name kvKey static s1 \<subseteq> refs_of name kvKey static s"
    using coherent_coll_evolves[OF coh e1] by simp_all
  show ?thesis
  proof (cases r1)
    case (Some c1)
    then obtain e where e: "centry s ?dm = Some e" "c1 = data e" using r1 by auto
    then obtain r where r: "data e = ArrayRef r" "r < length (heap s)" "heap s ! r = ?xs"
      using hdm by (auto simp: holds_def)
    have g: "getData name kvKey static s u now = (ArrayRef r, s1)"
      using c Some e r i by (simp add: getData_def ensureInitialized_def Let_def split: prod.splits)
    have "r \<in> refs_of name kvKey static s" using e r by (auto simp: refs_of_def refs_at_def)
    then show ?thesis using g evolves_mono[OF e1] r h1 coh1 sto1 ref1 by auto
  next
    case None
    obtain res s2 where k: "kvAdapter_get s1 kvKey False now = (res, s2)"
      by (cases "kvAdapter_get s1 kvKey False now")
    have d1: "dataSource s1 = KV" and av1: "isAvailable s1" and ns1: "kv s1 = Some ns"
      using evolvesD(2,3)[OF e1] d av ns k1 by simp_all
    note e2 = kvAdapter_get_ev(1)[OF k] and p2 = kvAdapter_get_ev(2)[OF k av1 ns1]
    have hdm1: "holds s1 ?dm ?xs" and hkk1: "holds s1 ?kk ?xs" and st1: "static < length (heap s1)"
      using coh1 sto1 by (simp_all add: coherent_coll_def)
    obtain v where v: "res = Inr v" using p2 nf by (cases res) auto
    define c2 where "c2 = (case v of None \<Rightarrow> ArrayRef static | Some c' \<Rightarrow> c')"
    define s3 where "s3 = cache_set s2 ?dm c2 dataManager_cacheTTL now"
    have g: "getData name kvKey static s u now = (c2, s3)"
      using c None i d1 k v by (simp add: getData_def ensureInitialized_def Let_def c2_def s3_def split: prod.splits)
    have e3: "evolves {?dm} {} s2 s3" unfolding s3_def by (rule cache_set_ev(1))
    have h3: "heap s3 = heap s2" unfolding s3_def by (rule cache_set_ev(3))
    have e13: "evolves {?kk, ?dm} {} s1 s3" by (rule evolves_trans'[OF e2 e3]) auto
    have e03: "evolves {?dm, ?kk} {} s s3" by (rule evolves_trans'[OF e1 e13]) auto
    have sto3: "stored kvKey static s3 = ?xs" using stored_evolves[OF e03 _ st] by simp
    have sen3: "sentry s3 kvKey = sentry s kvKey" using evolvesD(6)[OF e03, of kvKey] by simp
    have st3: "static < length (heap s3)" using evolvesD(8)[OF e03] st by simp
    have c3dm: "centry s3 ?dm = None \<or> (\<exists>e. centry s3 ?dm = Some e \<and> data e = c2)"
      unfolding s3_def by (rule cache_set_ev(2))
    have c3kk: "centry s3 ?kk = None \<or> centry s3 ?kk = centry s2 ?kk"
      using evolvesD(5)[OF e3, of ?kk] by simp
    have main: "\<exists>r. c2 = ArrayRef r \<and> r < length (heap s2) \<and> heap s2 ! r = ?xs \<and>
                  (r \<in> refs_of name kvKey static s \<or> length (heap s) \<le> r) \<and>
                  (centry s2 ?kk = None \<or> (\<exists>e. centry s2 ?kk = Some e \<and> data e = ArrayRef r)
                    \<or> (centry s2 ?kk = centry s1 ?kk \<and> heap s2 = heap s1))"
    proof (cases v)
      case None
      then have a: "sentry s1 kvKey = None" "heap s2 = heap s1" using p2 v by simp_all
      have "c2 = ArrayRef static" using None by (simp add: c2_def)
      moreover have "heap s2 ! static = ?xs"
        using coherent_coll_stored(1)[OF coh1 a(1)] sto1 a(2) by simp
      moreover have "static \<in> refs_of name kvKey static s" by (simp add: refs_of_def)
      moreover have "centry s2 ?kk = None \<or> centry s2 ?kk = centry s1 ?kk"
      proof -
        have "evolves {} {} s1 s2" using p2 v None by simp
        from evolvesD(5)[OF this, of ?kk] show ?thesis by simp
      qed
      ultimately show ?thesis using st1 a(2) by auto
    next
      case (Some c')
      then have c2: "c2 = c'" by (simp add: c2_def)
      from p2 v Some consider
        (hit) e where "centry s1 ?kk = Some e" "data e = c'" "centry s2 ?kk = Some e" "heap s2 = heap s1"
        | (miss) d where "sentry s1 kvKey = Some d" "parse (heap s1) d = (c', heap s2)"
            "centry s2 ?kk = None \<or> (\<exists>e. centry s2 ?kk = Some e \<and> data e = c')"
        by auto
      then show ?thesis
      proof cases
        case hit
        then obtain r where r: "data e = ArrayRef r" "r < length (heap s1)" "heap s1 ! r = ?xs"
          using hkk1 by (auto simp: holds_def)
        have "centry s ?kk = Some e" using evolvesD(5)[OF e1, of ?kk] hit(1) by auto
        then have "r \<in> refs_of name kvKey static s" using r(1) by (auto simp: refs_of_def refs_at_def)
        then show ?thesis using hit r c2 by auto
      next
        case miss
        have dd: "d = Collection ?xs" using coherent_coll_stored(2)[OF coh1 miss(1)] sto1 by simp
        from parse_heap[OF miss(2)] dd
        have "c' = ArrayRef (length (heap s1))" "heap s2 = heap s1 @ [?xs]" by simp_all
        then show ?thesis using miss(3) c2 h1 by auto
      qed
    qed
    then obtain r where r: "c2 = ArrayRef r" "r < length (heap s2)" "heap s2 ! r = ?xs"
      "r \<in> refs_of name kvKey static s \<or> length (heap s) \<le> r"
      "centry s2 ?kk = None \<or> (\<exists>e. centry s2 ?kk = Some e \<and> data e = ArrayRef r)
         \<or> (centry s2 ?kk = centry s1 ?kk \<and> heap s2 = heap s1)" by blast
    have hdm3: "holds s3 ?dm ?xs"
      by (rule holds_new[where r=r]) (use c3dm r h3 in auto)
    have hkk3: "holds s3 ?kk ?xs"
    proof -
      from r(5) have "holds s2 ?kk ?xs"
      proof (elim disjE)
        assume "centry s2 ?kk = None" then show ?thesis by (simp add: holds_def)
      next
        assume "\<exists>e. centry s2 ?kk = Some e \<and> data e = ArrayRef r"
        then show ?thesis using r by (auto simp: holds_def)
      next
        assume "centry s2 ?kk = centry s1 ?kk \<and> heap s2 = heap s1"
        then show ?thesis using hkk1 by (simp add: holds_def)
      qed
      then show ?thesis by (rule holds_evolves[OF _ e3]) simp
    qed
    have coh3: "coherent_coll name kvKey static s3"
      using coh sen3 st3 hdm3 hkk3 sto3 by (simp add: coherent_coll_def)
    have refs3: "refs_of name kvKey static s3 \<subseteq> insert r (refs_of name kvKey static s)"
    proof -
      have a: "refs_at s3 ?dm \<subseteq> {r}" using refs_at_new[of s3 ?dm r] c3dm r(1) by auto
      have b: "refs_at s3 ?kk \<subseteq> refs_at s2 ?kk" by (rule refs_at_evolves[OF e3]) simp
      have c: "refs_at s2 ?kk \<subseteq> insert r (refs_at s1 ?kk)"
        using r(5) by (auto simp: refs_at_def)
      have d: "refs_at s1 ?kk \<subseteq> refs_at s ?kk" by (rule refs_at_evolves[OF e1]) simp
      show ?thesis using a b c d by (auto simp: refs_of_def)
    qed
    show ?thesis using g r e03 h3 coh3 sto3 refs3 by auto
  qed
qed

lemma refs_of_bound:
  assumes "coherent_coll n k st s" "r \<in> refs_of n k st s"
  shows "r < length (heap s)"
  using assms refs_at_bound[of s "dataManager_getCacheKey n" "stored k st s" r]
    refs_at_bound[of s "kvAdapter_getCacheKey k" "stored k st s" r]
  by (auto simp: coherent_coll_def refs_of_def)

lemma read_pair:
  assumes i: "isInitialized s" and d: "dataSource s = KV" and av: "isAvailable s" and ns: "kv s = Some ns"
    and nf: "kA \<notin> set (failingGet ns)"
    and cA: "coherent_coll nA kA stA s" and cB: "coherent_coll nB kB stB s"
    and sep: "refs_of nA kA stA s \<inter> refs_of nB kB stB s = {}"
    and dist: "nA \<noteq> nB" "kA \<noteq> kB"
  shows "\<exists>r s'. getData nA kA stA s u now = (ArrayRef r, s') \<and>
           evolves {dataManager_getCacheKey nA, kvAdapter_getCacheKey kA} {} s s' \<and>
           r < length (heap s') \<and> heap s' ! r = stored kA stA s \<and>
           coherent_coll nA kA stA s' \<and> stored kA stA s' = stored kA stA s \<and>
           coherent_coll nB kB stB s' \<and> stored kB stB s' = stored kB stB s \<and>
           r \<notin> refs_of nB kB stB s' \<and>
           refs_of nA kA stA s' \<inter> refs_of nB kB stB s' = {}"
proof -
  from getData_coherent[OF i d av ns nf cA, of u now] obtain r s' where
    g: "getData nA kA stA s u now = (ArrayRef r, s')"
    and ev: "evolves {dataManager_getCacheKey nA, kvAdapter_getCacheKey kA} {} s s'"
    and r: "r < length (heap s')" "heap s' ! r = stored kA stA s"
    and cA': "coherent_coll nA kA stA s'" "stored kA stA s' = stored kA stA s"
    and rin: "r \<in> refs_of nA kA stA s \<union> {r. length (heap s) \<le> r}"
    and rsub: "refs_of nA kA stA s' \<subseteq> insert r (refs_of nA kA stA s)" by blast
  have cB': "coherent_coll nB kB stB s'" "stored kB stB s' = stored kB stB s"
    "refs_of nB kB stB s' \<subseteq> refs_of nB kB stB s"
    using coherent_coll_evolves[OF cB ev] dist by simp_all
  have rB: "r \<notin> refs_of nB kB stB s"
    using rin sep refs_of_bound[OF cB, of r] by auto
  have "r \<notin> refs_of nB kB stB s'" using rB cB'(3) by auto
  moreover have "refs_of nA kA stA s' \<inter> refs_of nB kB stB s' = {}"
    using rsub cB'(3) sep rB by auto
  ultimately show ?thesis using g ev r cA' cB' by blast
qed

lemma stringify_ArrayRef: "r < length h \<Longrightarrow> stringify h (ArrayRef r) = Collection (h ! r)"
  by (simp add: deref_def)

lemma write_pair:
  assumes i: "isInitialized s" and d: "dataSource s = KV" and av: "isAvailable s" and ns: "kv s = Some ns"
    and nf: "kA \<notin> set (failingPut ns)"
    and stA: "stA < length (heap s)" and cB: "coherent_coll nB kB stB s"
    and sep: "stA \<notin> refs_of nB kB stB s" "r \<notin> refs_of nB kB stB s"
    and dist: "nA \<noteq> nB" "kA \<noteq> kB" "kA \<noteq> KV_METADATA" "kB \<noteq> KV_METADATA"
    and h': "length (heap s) \<le> length h'" "r < length h'" "h' ! r = ys"
      "\<forall>r'<length (heap s). r' \<noteq> r \<longrightarrow> h' ! r' = heap s ! r'"
  shows "\<exists>s'. saveData nA kA (s\<lparr>heap := h'\<rparr>) (ArrayRef r) now = (Inr (), s') \<and>
           isInitialized s' \<and> dataSource s' = KV \<and> isAvailable s' \<and>
           (\<exists>ns'. kv s' = Some ns' \<and> failingGet ns' = failingGet ns \<and> failingPut ns' = failingPut ns) \<and>
           sentry s' kA = Some (Collection ys) \<and> (\<forall>k. k \<noteq> kA \<and> k \<noteq> KV_METADATA \<longrightarrow> sentry s' k = sentry s k) \<and>
           coherent_coll nA kA stA s' \<and> stored kA stA s' = ys \<and>
           coherent_coll nB kB stB s' \<and> stored kB stB s' = stored kB stB s \<and>
           refs_of nA kA stA s' \<inter> refs_of nB kB stB s' = {} \<and>
           length (heap s) \<le> length (heap s') \<and>
           (\<forall>r'<length (heap s). r' \<noteq> r \<longrightarrow> heap s' ! r' = heap s ! r')"
proof -
  let ?s0 = "s\<lparr>heap := h'\<rparr>"
  let ?dA = "dataManager_getCacheKey nA" and ?kA = "kvAdapter_getCacheKey kA"
  let ?dB = "dataManager_getCacheKey nB" and ?kB = "kvAdapter_getCacheKey kB"
  have stB: "stB < length (heap s)" using cB by (simp add: coherent_coll_def)
  have stBr: "stB \<noteq> r" using sep(2) by (auto simp: refs_of_def)
  have sto0: "stored kB stB ?s0 = stored kB stB s"
    using h'(1,4) stB stBr by (simp add: stored_def deref_def split: option.splits doc.splits)
  have holds0: "holds ?s0 k xs" if hk: "holds s k xs" and sub: "refs_at s k \<subseteq> refs_of nB kB stB s" for k xs
    unfolding holds_def
  proof (intro allI impI)
    fix e assume e: "centry ?s0 k = Some e"
    then have e': "centry s k = Some e" by simp
    with hk obtain r' where r': "data e = ArrayRef r'" "r' < length (heap s)" "heap s ! r' = xs"
      by (auto simp: holds_def)
    have "r' \<in> refs_at s k" using e' r'(1) by (auto simp: refs_at_def)
    then have "r' \<noteq> r" using sub sep(2) by auto
    then show "\<exists>r. data e = ArrayRef r \<and> r < length (heap ?s0) \<and> heap ?s0 ! r = xs"
      using r' h'(1,4) by auto
  qed
  have cB0: "coherent_coll nB kB stB ?s0"
    using cB sto0 h'(1) holds0[of ?dB "stored kB stB s"] holds0[of ?kB "stored kB stB s"]
    by (auto simp: coherent_coll_def refs_of_def)
  have refsB0: "refs_of nB kB stB ?s0 = refs_of nB kB stB s"
    by (simp add: refs_of_def refs_at_def)
  from saveData_ok[of ?s0 ns kA nA "ArrayRef r" now] i d av ns nf dist(3)
  obtain s' where sd: "saveData nA kA ?s0 (ArrayRef r) now = (Inr (), s')"
    and ev: "evolves {?dA, ?kA, kvAdapter_getCacheKey KV_METADATA} {kA, KV_METADATA} ?s0 s'"
    and sen: "sentry s' kA = Some (stringify h' (ArrayRef r))"
    and ce: "\<forall>k\<in>{?dA, ?kA}. centry s' k = None \<or> (\<exists>e. centry s' k = Some e \<and> data e = ArrayRef r)"
    by auto
  have sen': "sentry s' kA = Some (Collection ys)" using sen h'(2,3) by (simp add: deref_def)
  have flags: "isInitialized s'" "dataSource s' = KV" "isAvailable s'"
    using evolvesD(2,3,4)[OF ev] i d av by simp_all
  from evolves_kv[OF ev, of ns] ns
  have kvs: "\<exists>ns'. kv s' = Some ns' \<and> failingGet ns' = failingGet ns \<and> failingPut ns' = failingPut ns" by simp
  have others: "\<forall>k. k \<noteq> kA \<and> k \<noteq> KV_METADATA \<longrightarrow> sentry s' k = sentry s k"
    using evolvesD(6)[OF ev] by auto
  have hr: "r < length (heap s')" "heap s' ! r = ys"
    using evolvesD(7)[OF ev, of r] h'(2,3) by simp_all
  have stoA: "stored kA stA s' = ys" using sen' by (simp add: stored_def)
  have lenA: "stA < length (heap s')" using evolvesD(8)[OF ev] h'(1) stA by simp
  have cA': "coherent_coll nA kA stA s'"
    unfolding coherent_coll_def stoA
    using sen' lenA ce hr by (auto intro!: holds_new[where r=r])
  have cB': "coherent_coll nB kB stB s'" "stored kB stB s' = stored kB stB ?s0"
    "refs_of nB kB stB s' \<subseteq> refs_of nB kB stB ?s0"
    using coherent_coll_evolves[OF cB0 ev] dist by simp_all
  have refsA: "refs_of nA kA stA s' \<subseteq> {stA, r}"
    using ce by (auto simp: refs_of_def refs_at_def)
  have sep': "refs_of nA kA stA s' \<inter> refs_of nB kB stB s' = {}"
    using refsA cB'(3) refsB0 sep by auto
  have len: "length (heap s) \<le> length (heap s')" using evolvesD(8)[OF ev] h'(1) by simp
  have frame: "\<forall>r'<length (heap s). r' \<noteq> r \<longrightarrow> heap s' ! r' = heap s ! r'"
  proof (intro allI impI)
    fix r' assume a: "r' < length (heap s)" "r' \<noteq> r"
    then have "r' < length (heap ?s0)" using h'(1) by simp
    from evolvesD(7)[OF ev this] a h'(4) show "heap s' ! r' = heap s ! r'" by simp
  qed
  show ?thesis using sd flags kvs sen' others cA' stoA cB' sto0 sep' len frame by auto
qed

section \<open>The data manager in \<open>KV\<close> mode\<close>

text \<open>
  \<^const>\<open>coherent\<close> holds when the data manager has started in \<open>KV\<close> mode with
  nothing cached yet, and every read and every write of the data manager that succeeds
  or is rejected by its validation keeps it. In a coherent state the array a read
  returns has the content of \<^const>\<open>categoriesOf\<close> (or \<^const>\<open>sitesOf\<close>), at whatever time
  and with or without the cache.
\<close>

lemma evolves_kv_same: "evolves CK {} s s' \<Longrightarrow> kv s' = kv s"
  by (simp add: evolves_def)

lemma coherentD:
  assumes "coherent s"
  shows "isInitialized s" "dataSource s = KV" "isAvailable s"
    "\<exists>ns. kv s = Some ns \<and> KV_CATEGORIES \<notin> set (failingGet ns) \<and> KV_SITES \<notin> set (failingGet ns) \<and>
                  KV_CATEGORIES \<notin> set (failingPut ns) \<and> KV_SITES \<notin> set (failingPut ns)"
    "coherent_coll ''categories'' KV_CATEGORIES staticCategories s"
    "coherent_coll ''sites'' KV_SITES staticSites s"
    "refs_of ''categories'' KV_CATEGORIES staticCategories s \<inter> refs_of ''sites'' KV_SITES staticSites s = {}"
  using assms by (auto simp: coherent_def kv_ready_def split: option.splits)

lemma coherentI:
  assumes "isInitialized s" "dataSource s = KV" "isAvailable s"
    "kv s = Some ns" "KV_CATEGORIES \<notin> set (failingGet ns)" "KV_SITES \<notin> set (failingGet ns)"
    "KV_CATEGORIES \<notin> set (failingPut ns)" "KV_SITES \<notin> set (failingPut ns)"
    "coherent_coll ''categories'' KV_CATEGORIES staticCategories s"
    "coherent_coll ''sites'' KV_SITES staticSites s"
    "refs_of ''categories'' KV_CATEGORIES staticCategories s \<inter> refs_of ''sites'' KV_SITES staticSites s = {}"
  shows "coherent s"
  using assms by (simp add: coherent_def kv_ready_def)

lemma coherent_at_startup:
  assumes "kv_ready s" "staticCategories < length (heap s)" "staticSites < length (heap s)"
    and "centry s (dataManager_getCacheKey ''categories'') = None"
      "centry s (kvAdapter_getCacheKey KV_CATEGORIES) = None"
      "centry s (dataManager_getCacheKey ''sites'') = None"
      "centry s (kvAdapter_getCacheKey KV_SITES) = None"
    and "sentry s KV_CATEGORIES = None \<or> (\<exists>xs. sentry s KV_CATEGORIES = Some (Collection xs))"
      "sentry s KV_SITES = None \<or> (\<exists>xs. sentry s KV_SITES = Some (Collection xs))"
  shows "coherent s"
  using assms
  by (auto simp: coherent_def coherent_coll_def holds_def refs_of_def refs_at_def)

lemma getCategories_coherent:
  assumes c: "coherent s"
  shows "\<exists>r s1. getCategories s u now = (ArrayRef r, s1) \<and> coherent s1 \<and>
           r < length (heap s1) \<and> heap s1 ! r = categoriesOf s \<and>
           categoriesOf s1 = categoriesOf s \<and> sitesOf s1 = sitesOf s \<and>
           kv s1 = kv s \<and> take (length (heap s)) (heap s1) = heap s \<and>
           r \<notin> refs_of ''sites'' KV_SITES staticSites s1"
proof -
  note d = coherentD[OF c]
  from d(4) obtain ns where ns: "kv s = Some ns" "KV_CATEGORIES \<notin> set (failingGet ns)"
    "KV_SITES \<notin> set (failingGet ns)" "KV_CATEGORIES \<notin> set (failingPut ns)" "KV_SITES \<notin> set (failingPut ns)"
    by blast
  from read_pair[OF d(1,2,3) ns(1,2) d(5,6,7), of u now]
  obtain r s1 where g: "getData ''categories'' KV_CATEGORIES staticCategories s u now = (ArrayRef r, s1)"
    and ev: "evolves {dataManager_getCacheKey ''categories'', kvAdapter_getCacheKey KV_CATEGORIES} {} s s1"
    and r: "r < length (heap s1)" "heap s1 ! r = stored KV_CATEGORIES staticCategories s"
    and cA: "coherent_coll ''categories'' KV_CATEGORIES staticCategories s1"
       "stored KV_CATEGORIES staticCategories s1 = stored KV_CATEGORIES staticCategories s"
    and cB: "coherent_coll ''sites'' KV_SITES staticSites s1"
       "stored KV_SITES staticSites s1 = stored KV_SITES staticSites s"
    and rn: "r \<notin> refs_of ''sites'' KV_SITES staticSites s1"
    and sep: "refs_of ''categories'' KV_CATEGORIES staticCategories s1 \<inter> refs_of ''sites'' KV_SITES staticSites s1 = {}"
    by auto
  have kv1: "kv s1 = kv s" by (rule evolves_kv_same[OF ev])
  have "coherent s1"
    by (rule coherentI[where ns=ns]) (use evolvesD(2,3,4)[OF ev] d kv1 ns cA cB sep in auto)
  then show ?thesis using g r cA cB rn kv1 evolvesD(1)[OF ev]
    by (auto simp: getCategories_def categoriesOf_def sitesOf_def)
qed

lemma getSites_coherent:
  assumes c: "coherent s"
  shows "\<exists>r s1. getSites s u now = (ArrayRef r, s1) \<and> coherent s1 \<and>
           r < length (heap s1) \<and> heap s1 ! r = sitesOf s \<and>
           categoriesOf s1 = categoriesOf s \<and> sitesOf s1 = sitesOf s \<and>
           kv s1 = kv s \<and> take (length (heap s)) (heap s1) = heap s \<and>
           r \<notin> refs_of ''categories'' KV_CATEGORIES staticCategories s1"
proof -
  note d = coherentD[OF c]
  from d(4) obtain ns where ns: "kv s = Some ns" "KV_CATEGORIES \<notin> set (failingGet ns)"
    "KV_SITES \<notin> set (failingGet ns)" "KV_CATEGORIES \<notin> set (failingPut ns)" "KV_SITES \<notin> set (failingPut ns)"
    by blast
  have sep0: "refs_of ''sites'' KV_SITES staticSites s \<inter> refs_of ''categories'' KV_CATEGORIES staticCategories s = {}"
    using d(7) by auto
  from read_pair[OF d(1,2,3) ns(1,3) d(6,5) sep0, of u now]
  obtain r s1 where g: "getData ''sites'' KV_SITES staticSites s u now = (ArrayRef r, s1)"
    and ev: "evolves {dataManager_getCacheKey ''sites'', kvAdapter_getCacheKey KV_SITES} {} s s1"
    and r: "r < length (heap s1)" "heap s1 ! r = stored KV_SITES staticSites s"
    and cA: "coherent_coll ''sites'' KV_SITES staticSites s1"
       "stored KV_SITES staticSites s1 = stored KV_SITES staticSites s"
    and cB: "coherent_coll ''categories'' KV_CATEGORIES staticCategories s1"
       "stored KV_CATEGORIES staticCategories s1 = stored KV_CATEGORIES staticCategories s"
    and rn: "r \<notin> refs_of ''categories'' KV_CATEGORIES staticCategories s1"
    and sep: "refs_of ''sites'' KV_SITES staticSites s1 \<inter> refs_of ''categories'' KV_CATEGORIES staticCategories s1 = {}"
    by auto
  have kv1: "kv s1 = kv s" by (rule evolves_kv_same[OF ev])
  have sep': "refs_of ''categories'' KV_CATEGORIES staticCategories s1 \<inter> refs_of ''sites'' KV_SITES staticSites s1 = {}"
    using sep by auto
  have "coherent s1"
    by (rule coherentI[where ns=ns]) (use evolvesD(2,3,4)[OF ev] d kv1 ns cA cB sep' in auto)
  then show ?thesis using g r cA cB rn kv1 evolvesD(1)[OF ev]
    by (auto simp: getSites_def categoriesOf_def sitesOf_def)
qed

text \<open>Writing the categories back: in place (\<open>r\<close> allocated) or as a new array.\<close>

lemma saveCategories_coherent:
  assumes c: "coherent s" and rn: "r \<notin> refs_of ''sites'' KV_SITES staticSites s"
    and h': "length (heap s) \<le> length h'" "r < length h'" "h' ! r = ys"
      "\<forall>r'<length (heap s). r' \<noteq> r \<longrightarrow> h' ! r' = heap s ! r'"
  shows "\<exists>s'. saveCategories (s\<lparr>heap := h'\<rparr>) (ArrayRef r) now = (Inr (), s') \<and> coherent s' \<and>
           categoriesOf s' = ys \<and> sitesOf s' = sitesOf s"
proof -
  note d = coherentD[OF c]
  from d(4) obtain ns where ns: "kv s = Some ns" "KV_CATEGORIES \<notin> set (failingGet ns)"
    "KV_SITES \<notin> set (failingGet ns)" "KV_CATEGORIES \<notin> set (failingPut ns)" "KV_SITES \<notin> set (failingPut ns)"
    by blast
  have st: "staticCategories < length (heap s)" using d(5) by (simp add: coherent_coll_def)
  have sn: "staticCategories \<notin> refs_of ''sites'' KV_SITES staticSites s"
    using d(7) by (auto simp: refs_of_def)
  from write_pair[OF d(1,2,3) ns(1,4) st d(6) sn rn _ _ _ _ h', of "''categories''" now]
  obtain s' where sd: "saveData ''categories'' KV_CATEGORIES (s\<lparr>heap := h'\<rparr>) (ArrayRef r) now = (Inr (), s')"
    and fl: "isInitialized s'" "dataSource s' = KV" "isAvailable s'"
    and kvs: "\<exists>ns'. kv s' = Some ns' \<and> failingGet ns' = failingGet ns \<and> failingPut ns' = failingPut ns"
    and cA: "coherent_coll ''categories'' KV_CATEGORIES staticCategories s'"
       "stored KV_CATEGORIES staticCategories s' = ys"
    and cB: "coherent_coll ''sites'' KV_SITES staticSites s'"
       "stored KV_SITES staticSites s' = stored KV_SITES staticSites s"
    and sep: "refs_of ''categories'' KV_CATEGORIES staticCategories s' \<inter> refs_of ''sites'' KV_SITES staticSites s' = {}"
    by auto
  from kvs obtain ns' where ns': "kv s' = Some ns'" "failingGet ns' = failingGet ns" "failingPut ns' = failingPut ns"
    by blast
  have "coherent s'"
    by (rule coherentI[where ns=ns']) (use fl ns' ns cA cB sep in auto)
  then show ?thesis using sd cA cB by (auto simp: saveCategories_def categoriesOf_def sitesOf_def)
qed

lemma saveSites_coherent:
  assumes c: "coherent s" and rn: "r \<notin> refs_of ''categories'' KV_CATEGORIES staticCategories s"
    and h': "length (heap s) \<le> length h'" "r < length h'" "h' ! r = ys"
      "\<forall>r'<length (heap s). r' \<noteq> r \<longrightarrow> h' ! r' = heap s ! r'"
  shows "\<exists>s'. saveSites (s\<lparr>heap := h'\<rparr>) (ArrayRef r) now = (Inr (), s') \<and> coherent s' \<and>
           sitesOf s' = ys \<and> categoriesOf s' = categoriesOf s"
proof -
  note d = coherentD[OF c]
  from d(4) obtain ns where ns: "kv s = Some ns" "KV_CATEGORIES \<notin> set (failingGet ns)"
    "KV_SITES \<notin> set (failingGet ns)" "KV_CATEGORIES \<notin> set (failingPut ns)" "KV_SITES \<notin> set (failingPut ns)"
    by blast
  have st: "staticSites < length (heap s)" using d(6) by (simp add: coherent_coll_def)
  have sn: "staticSites \<notin> refs_of ''categories'' KV_CATEGORIES staticCategories s"
    using d(7) by (auto simp: refs_of_def)
  from write_pair[OF d(1,2,3) ns(1,5) st d(5) sn rn _ _ _ _ h', of "''sites''" now]
  obtain s' where sd: "saveData ''sites'' KV_SITES (s\<lparr>heap := h'\<rparr>) (ArrayRef r) now = (Inr (), s')"
    and fl: "isInitialized s'" "dataSource s' = KV" "isAvailable s'"
    and kvs: "\<exists>ns'. kv s' = Some ns' \<and> failingGet ns' = failingGet ns \<and> failingPut ns' = failingPut ns"
    and cA: "coherent_coll ''sites'' KV_SITES staticSites s'"
       "stored KV_SITES staticSites s' = ys"
    and cB: "coherent_coll ''categories'' KV_CATEGORIES staticCategories s'"
       "stored KV_CATEGORIES staticCategories s' = stored KV_CATEGORIES staticCategories s"
    and sep: "refs_of ''sites'' KV_SITES staticSites s' \<inter> refs_of ''categories'' KV_CATEGORIES staticCategories s' = {}"
    by auto
  from kvs obtain ns' where ns': "kv s' = Some ns'" "failingGet ns' = failingGet ns" "failingPut ns' = failingPut ns"
    by blast
  have sep': "refs_of ''categories'' KV_CATEGORIES staticCategories s' \<inter> refs_of ''sites'' KV_SITES staticSites s' = {}"
    using sep by auto
  have "coherent s'"
    by (rule coherentI[where ns=ns']) (use fl ns' ns cA cB sep' in auto)
  then show ?thesis using sd cA cB by (auto simp: saveSites_def categoriesOf_def sitesOf_def)
qed

lemma inplace_heap:
  assumes "r < length h"
  shows "length h \<le> length (h[r := ys])" "r < length (h[r := ys])" "h[r := ys] ! r = ys"
    "\<forall>r'<length h. r' \<noteq> r \<longrightarrow> h[r := ys] ! r' = h ! r'"
  using assms by simp_all

lemma alloc_heap:
  shows "length h \<le> length (h @ [ys])" "length h < length (h @ [ys])" "(h @ [ys]) ! length h = ys"
    "\<forall>r'<length h. r' \<noteq> length h \<longrightarrow> (h @ [ys]) ! r' = h ! r'"
  by (simp_all add: nth_append)

lemma unchanged_trans: "unchanged s s1 \<Longrightarrow> unchanged s1 s2 \<Longrightarrow> unchanged s s2"
  unfolding unchanged_def using take_take_prefix by metis

lemma handleError_validation_eq [simp]: "handleError_validation m = AppError m VALIDATION"
  by (simp add: handleError_validation_def)

lemma addCategory_coherent:
  assumes c: "coherent s"
  shows "if find (\<lambda>cat. getProp cat ''id'' = getProp category ''id'') (categoriesOf s) \<noteq> None
         then \<exists>s'. addCategory s category now = (Inl (AppError (CategoryIdExists (getProp category ''id'')) VALIDATION), s') \<and>
                coherent s' \<and> unchanged s s'
         else \<exists>s'. addCategory s category now = (Inr (), s') \<and> coherent s' \<and>
                categoriesOf s' = categoriesOf s @ [category] \<and> sitesOf s' = sitesOf s"
proof -
  from getCategories_coherent[OF c, of True now] obtain r s1 where
    g: "getCategories s True now = (ArrayRef r, s1)" and c1: "coherent s1"
    and r: "r < length (heap s1)" "heap s1 ! r = categoriesOf s"
    and same: "categoriesOf s1 = categoriesOf s" "sitesOf s1 = sitesOf s" "kv s1 = kv s"
      "take (length (heap s)) (heap s1) = heap s"
    and rn: "r \<notin> refs_of ''sites'' KV_SITES staticSites s1" by blast
  have dr: "deref (heap s1) r = categoriesOf s" using r by (simp add: deref_def)
  show ?thesis
  proof (cases "find (\<lambda>cat. getProp cat ''id'' = getProp category ''id'') (categoriesOf s) \<noteq> None")
    case True
    then have "addCategory s category now = (Inl (AppError (CategoryIdExists (getProp category ''id'')) VALIDATION), s1)"
      using g dr by (simp add: addCategory_def)
    then show ?thesis using True c1 same by (simp add: unchanged_def)
  next
    case False
    from saveCategories_coherent[OF c1 rn inplace_heap[OF r(1), of "categoriesOf s @ [category]"], of now]
    obtain s' where "saveCategories (s1\<lparr>heap := (heap s1)[r := categoriesOf s @ [category]]\<rparr>) (ArrayRef r) now = (Inr (), s')"
      "coherent s'" "categoriesOf s' = categoriesOf s @ [category]" "sitesOf s' = sitesOf s1" by blast
    then show ?thesis using False g dr same by (simp add: addCategory_def)
  qed
qed

lemma addSite_coherent:
  assumes c: "coherent s"
  shows "if find (\<lambda>x. getProp x ''id'' = getProp site ''id'') (sitesOf s) \<noteq> None
         then \<exists>s'. addSite s site now = (Inl (AppError (SiteIdExists (getProp site ''id'')) VALIDATION), s') \<and>
                coherent s' \<and> unchanged s s'
         else if find (\<lambda>x. getProp x ''url'' = getProp site ''url'') (sitesOf s) \<noteq> None
         then \<exists>s'. addSite s site now = (Inl (AppError (SiteUrlExists (getProp site ''url'')) VALIDATION), s') \<and>
                coherent s' \<and> unchanged s s'
         else \<exists>s'. addSite s site now = (Inr (), s') \<and> coherent s' \<and>
                sitesOf s' = sitesOf s @ [site] \<and> categoriesOf s' = categoriesOf s"
proof -
  from getSites_coherent[OF c, of True now] obtain r s1 where
    g: "getSites s True now = (ArrayRef r, s1)" and c1: "coherent s1"
    and r: "r < length (heap s1)" "heap s1 ! r = sitesOf s"
    and same: "categoriesOf s1 = categoriesOf s" "sitesOf s1 = sitesOf s" "kv s1 = kv s"
      "take (length (heap s)) (heap s1) = heap s"
    and rn: "r \<notin> refs_of ''categories'' KV_CATEGORIES staticCategories s1" by blast
  have dr: "deref (heap s1) r = sitesOf s" using r by (simp add: deref_def)
  consider (dupId) "find (\<lambda>x. getProp x ''id'' = getProp site ''id'') (sitesOf s) \<noteq> None"
    | (dupUrl) "find (\<lambda>x. getProp x ''id'' = getProp site ''id'') (sitesOf s) = None"
        "find (\<lambda>x. getProp x ''url'' = getProp site ''url'') (sitesOf s) \<noteq> None"
    | (fresh) "find (\<lambda>x. getProp x ''id'' = getProp site ''id'') (sitesOf s) = None"
        "find (\<lambda>x. getProp x ''url'' = getProp site ''url'') (sitesOf s) = None" by blast
  then show ?thesis
  proof cases
    case dupId
    then have "addSite s site now = (Inl (AppError (SiteIdExists (getProp site ''id'')) VALIDATION), s1)"
      using g dr by (simp add: addSite_def)
    then show ?thesis using dupId c1 same by (simp add: unchanged_def)
  next
    case dupUrl
    then have "addSite s site now = (Inl (AppError (SiteUrlExists (getProp site ''url'')) VALIDATION), s1)"
      using g dr by (simp add: addSite_def)
    then show ?thesis using dupUrl c1 same by (simp add: unchanged_def)
  next
    case fresh
    from saveSites_coherent[OF c1 rn inplace_heap[OF r(1), of "sitesOf s @ [site]"], of now]
    obtain s' where "saveSites (s1\<lparr>heap := (heap s1)[r := sitesOf s @ [site]]\<rparr>) (ArrayRef r) now = (Inr (), s')"
      "coherent s'" "sitesOf s' = sitesOf s @ [site]" "categoriesOf s' = categoriesOf s1" by blast
    then show ?thesis using fresh g dr same by (simp add: addSite_def)
  qed
qed

lemma updateCategory_coherent:
  assumes c: "coherent s"
  shows "case findIndex (\<lambda>cat. getProp cat ''id'' = Some (JStr categoryId)) (categoriesOf s) of
           None \<Rightarrow> \<exists>s'. updateCategory s categoryId updates now = (Inl (AppError (CategoryMissing categoryId) VALIDATION), s') \<and>
                coherent s' \<and> unchanged s s'
         | Some index \<Rightarrow> \<exists>s'. updateCategory s categoryId updates now = (Inr (), s') \<and> coherent s' \<and>
                categoriesOf s' = (categoriesOf s)[index := spread (categoriesOf s ! index) updates] \<and>
                sitesOf s' = sitesOf s"
proof -
  from getCategories_coherent[OF c, of True now] obtain r s1 where
    g: "getCategories s True now = (ArrayRef r, s1)" and c1: "coherent s1"
    and r: "r < length (heap s1)" "heap s1 ! r = categoriesOf s"
    and same: "categoriesOf s1 = categoriesOf s" "sitesOf s1 = sitesOf s" "kv s1 = kv s"
      "take (length (heap s)) (heap s1) = heap s"
    and rn: "r \<notin> refs_of ''sites'' KV_SITES staticSites s1" by blast
  have dr: "deref (heap s1) r = categoriesOf s" using r by (simp add: deref_def)
  show ?thesis
  proof (cases "findIndex (\<lambda>cat. getProp cat ''id'' = Some (JStr categoryId)) (categoriesOf s)")
    case None
    then have "updateCategory s categoryId updates now = (Inl (AppError (CategoryMissing categoryId) VALIDATION), s1)"
      using g dr by (simp add: updateCategory_def)
    then show ?thesis using None c1 same by (simp add: unchanged_def)
  next
    case (Some index)
    let ?ys = "(categoriesOf s)[index := spread (categoriesOf s ! index) updates]"
    from saveCategories_coherent[OF c1 rn inplace_heap[OF r(1), of ?ys], of now]
    obtain s' where "saveCategories (s1\<lparr>heap := (heap s1)[r := ?ys]\<rparr>) (ArrayRef r) now = (Inr (), s')"
      "coherent s'" "categoriesOf s' = ?ys" "sitesOf s' = sitesOf s1" by blast
    then show ?thesis using Some g dr same by (simp add: updateCategory_def)
  qed
qed

lemma updateSite_coherent:
  assumes c: "coherent s"
  shows "case findIndex (\<lambda>site. getProp site ''id'' = Some (JStr siteId)) (sitesOf s) of
           None \<Rightarrow> \<exists>s'. updateSite s siteId updates now = (Inl (AppError (SiteMissing siteId) VALIDATION), s') \<and>
                coherent s' \<and> unchanged s s'
         | Some index \<Rightarrow> \<exists>s'. updateSite s siteId updates now = (Inr (), s') \<and> coherent s' \<and>
                sitesOf s' = (sitesOf s)[index := spread (sitesOf s ! index) updates] \<and>
                categoriesOf s' = categoriesOf s"
proof -
  from getSites_coherent[OF c, of True now] obtain r s1 where
    g: "getSites s True now = (ArrayRef r, s1)" and c1: "coherent s1"
    and r: "r < length (heap s1)" "heap s1 ! r = sitesOf s"
    and same: "categoriesOf s1 = categoriesOf s" "sitesOf s1 = sitesOf s" "kv s1 = kv s"
      "take (length (heap s)) (heap s1) = heap s"
    and rn: "r \<notin> refs_of ''categories'' KV_CATEGORIES staticCategories s1" by blast
  have dr: "deref (heap s1) r = sitesOf s" using r by (simp add: deref_def)
  show ?thesis
  proof (cases "findIndex (\<lambda>site. getProp site ''id'' = Some (JStr siteId)) (sitesOf s)")
    case None
    then have "updateSite s siteId updates now = (Inl (AppError (SiteMissing siteId) VALIDATION), s1)"
      using g dr by (simp add: updateSite_def)
    then show ?thesis using None c1 same by (simp add: unchanged_def)
  next
    case (Some index)
    let ?ys = "(sitesOf s)[index := spread (sitesOf s ! index) updates]"
    from saveSites_coherent[OF c1 rn inplace_heap[OF r(1), of ?ys], of now]
    obtain s' where "saveSites (s1\<lparr>heap := (heap s1)[r := ?ys]\<rparr>) (ArrayRef r) now = (Inr (), s')"
      "coherent s'" "sitesOf s' = ?ys" "categoriesOf s' = categoriesOf s1" by blast
    then show ?thesis using Some g dr same by (simp add: updateSite_def)
  qed
qed

lemma coherent_fresh_ref:
  assumes "coherent s"
  shows "length (heap s) \<notin> refs_of ''sites'' KV_SITES staticSites s"
    and "length (heap s) \<notin> refs_of ''categories'' KV_CATEGORIES staticCategories s"
  using coherentD(5,6)[OF assms] refs_of_bound[of _ _ _ s "length (heap s)"] by auto

lemma deleteSite_coherent:
  assumes c: "coherent s"
  shows "if length (filter (\<lambda>site. getProp site ''id'' \<noteq> Some (JStr siteId)) (sitesOf s)) = length (sitesOf s)
         then \<exists>s'. deleteSite s siteId now = (Inl (AppError (SiteMissing siteId) VALIDATION), s') \<and>
                coherent s' \<and> unchanged s s'
         else \<exists>s'. deleteSite s siteId now = (Inr (), s') \<and> coherent s' \<and>
                sitesOf s' = filter (\<lambda>site. getProp site ''id'' \<noteq> Some (JStr siteId)) (sitesOf s) \<and>
                categoriesOf s' = categoriesOf s"
proof -
  from getSites_coherent[OF c, of True now] obtain r s1 where
    g: "getSites s True now = (ArrayRef r, s1)" and c1: "coherent s1"
    and r: "r < length (heap s1)" "heap s1 ! r = sitesOf s"
    and same: "categoriesOf s1 = categoriesOf s" "sitesOf s1 = sitesOf s" "kv s1 = kv s"
      "take (length (heap s)) (heap s1) = heap s" by blast
  have dr: "deref (heap s1) r = sitesOf s" using r by (simp add: deref_def)
  let ?ys = "filter (\<lambda>site. getProp site ''id'' \<noteq> Some (JStr siteId)) (sitesOf s)"
  show ?thesis
  proof (cases "length ?ys = length (sitesOf s)")
    case True
    then have "deleteSite s siteId now = (Inl (AppError (SiteMissing siteId) VALIDATION), s1)"
      using g dr by (simp add: deleteSite_def)
    then show ?thesis using True c1 same by (simp add: unchanged_def)
  next
    case False
    from saveSites_coherent[OF c1 coherent_fresh_ref(2)[OF c1] alloc_heap[of "heap s1" ?ys], of now]
    obtain s' where "saveSites (s1\<lparr>heap := heap s1 @ [?ys]\<rparr>) (ArrayRef (length (heap s1))) now = (Inr (), s')"
      "coherent s'" "sitesOf s' = ?ys" "categoriesOf s' = categoriesOf s1" by blast
    then show ?thesis using False g dr same by (simp add: deleteSite_def alloc_def)
  qed
qed

lemma deleteCategory_coherent:
  assumes c: "coherent s"
  shows "if length (filter (\<lambda>site. getProp site ''category'' = Some (JStr categoryId)) (sitesOf s)) > 0
         then \<exists>s'. deleteCategory s categoryId now =
                  (Inl (AppError (CategoryInUse categoryId
                     (length (filter (\<lambda>site. getProp site ''category'' = Some (JStr categoryId)) (sitesOf s)))) VALIDATION), s') \<and>
                coherent s' \<and> unchanged s s'
         else \<exists>s'. deleteCategory s categoryId now = (Inr (), s') \<and> coherent s' \<and>
                categoriesOf s' = filter (\<lambda>cat. getProp cat ''id'' \<noteq> Some (JStr categoryId)) (categoriesOf s) \<and>
                sitesOf s' = sitesOf s"
proof -
  from getCategories_coherent[OF c, of True now] obtain rc s1 where
    g1: "getCategories s True now = (ArrayRef rc, s1)" and c1: "coherent s1"
    and rc: "rc < length (heap s1)" "heap s1 ! rc = categoriesOf s"
    and same1: "categoriesOf s1 = categoriesOf s" "sitesOf s1 = sitesOf s" "kv s1 = kv s"
      "take (length (heap s)) (heap s1) = heap s" by blast
  from getSites_coherent[OF c1, of True now] obtain rs s2 where
    g2: "getSites s1 True now = (ArrayRef rs, s2)" and c2: "coherent s2"
    and rs: "rs < length (heap s2)" "heap s2 ! rs = sitesOf s1"
    and same2: "categoriesOf s2 = categoriesOf s1" "sitesOf s2 = sitesOf s1" "kv s2 = kv s1"
      "take (length (heap s1)) (heap s2) = heap s1" by blast
  have u: "unchanged s s2"
    by (rule unchanged_trans[of s s1 s2]) (use same1 same2 in \<open>simp_all add: unchanged_def\<close>)
  have drs: "deref (heap s2) rs = sitesOf s" using rs same1 by (simp add: deref_def)
  have drc: "deref (heap s2) rc = categoriesOf s"
    using heap_ext_nth[OF same2(4) rc(1)] rc(2) by (simp add: deref_def)
  let ?n = "length (filter (\<lambda>site. getProp site ''category'' = Some (JStr categoryId)) (sitesOf s))"
  let ?ys = "filter (\<lambda>cat. getProp cat ''id'' \<noteq> Some (JStr categoryId)) (categoriesOf s)"
  show ?thesis
  proof (cases "?n > 0")
    case True
    then have "deleteCategory s categoryId now = (Inl (AppError (CategoryInUse categoryId ?n) VALIDATION), s2)"
      using g1 g2 drs by (simp add: deleteCategory_def Let_def)
    then show ?thesis using True c2 u by simp
  next
    case False
    from saveCategories_coherent[OF c2 coherent_fresh_ref(1)[OF c2] alloc_heap[of "heap s2" ?ys], of now]
    obtain s' where "saveCategories (s2\<lparr>heap := heap s2 @ [?ys]\<rparr>) (ArrayRef (length (heap s2))) now = (Inr (), s')"
      "coherent s'" "categoriesOf s' = ?ys" "sitesOf s' = sitesOf s2" by blast
    then show ?thesis using False g1 g2 drs drc same1 same2
      by (simp add: deleteCategory_def alloc_def Let_def)
  qed
qed

lemma coherent_kv_example: "coherent kv_example"
  by (simp add: coherent_def kv_ready_def coherent_coll_def holds_def centry_def sentry_def stored_def
      refs_of_def refs_at_def example_defs CacheManager_new_def MemoryCache_new_def key_defs)

lemma kv_example_collections: "categoriesOf kv_example = [dev]" "sitesOf kv_example = [gh]"
  by (simp_all add: categoriesOf_def sitesOf_def stored_def sentry_def deref_def kv_example_def
      empty_store_def key_defs)

lemma find_None_set: "find P xs = None \<longleftrightarrow> (\<forall>x\<in>set xs. \<not> P x)"
  by (auto simp: find_None_iff)

lemma distinct_map_snoc:
  "distinct (map f xs) \<Longrightarrow> find (\<lambda>x. f x = f y) xs = None \<Longrightarrow> distinct (map f (xs @ [y]))"
  by (auto simp: find_None_set)

lemma uniqueIds_snoc:
  "uniqueIds xs \<Longrightarrow> find (\<lambda>x. getProp x ''id'' = getProp y ''id'') xs = None \<Longrightarrow> uniqueIds (xs @ [y])"
  unfolding uniqueIds_def by (rule distinct_map_snoc)

lemma uniqueUrls_snoc:
  "uniqueUrls xs \<Longrightarrow> find (\<lambda>x. getProp x ''url'' = getProp y ''url'') xs = None \<Longrightarrow> uniqueUrls (xs @ [y])"
  unfolding uniqueUrls_def by (rule distinct_map_snoc)

lemma uniqueIds_filter: "uniqueIds xs \<Longrightarrow> uniqueIds (filter P xs)"
  by (simp add: uniqueIds_def distinct_map_filter)

lemma uniqueUrls_filter: "uniqueUrls xs \<Longrightarrow> uniqueUrls (filter P xs)"
  by (simp add: uniqueUrls_def distinct_map_filter)

lemma referencesExist_iff:
  "referencesExist cats sites \<longleftrightarrow>
     (\<forall>site\<in>set sites. \<exists>cat\<in>set cats. getProp cat ''id'' = getProp site ''category'')"
  by (auto simp: referencesExist_def list_all_iff find_None_set)

lemma referencesExist_more_categories:
  "referencesExist cats sites \<Longrightarrow> referencesExist (cats @ [c]) sites"
  by (auto simp: referencesExist_iff)

lemma referencesExist_fewer_sites:
  "referencesExist cats sites \<Longrightarrow> referencesExist cats (filter P sites)"
  by (auto simp: referencesExist_iff)

lemma referencesExist_add_site:
  "referencesExist cats sites \<Longrightarrow>
   find (\<lambda>cat. getProp cat ''id'' = getProp site ''category'') cats \<noteq> None \<Longrightarrow>
   referencesExist cats (sites @ [site])"
  by (auto simp: referencesExist_iff find_None_set)

lemma referencesExist_delete_category:
  assumes "referencesExist cats sites"
    "filter (\<lambda>site. getProp site ''category'' = Some (JStr cid)) sites = []"
  shows "referencesExist (filter (\<lambda>cat. getProp cat ''id'' \<noteq> Some (JStr cid)) cats) sites"
  unfolding referencesExist_iff
proof
  fix site assume s: "site \<in> set sites"
  with assms(1) obtain cat where c: "cat \<in> set cats" "getProp cat ''id'' = getProp site ''category''"
    by (auto simp: referencesExist_iff)
  have "getProp site ''category'' \<noteq> Some (JStr cid)"
    using assms(2) s by (auto simp: filter_empty_conv)
  then show "\<exists>cat\<in>set (filter (\<lambda>cat. getProp cat ''id'' \<noteq> Some (JStr cid)) cats).
              getProp cat ''id'' = getProp site ''category''"
    using c by auto
qed

lemma unchanged_uniqueness: "unchanged s s' \<Longrightarrow> uniqueness s \<Longrightarrow> uniqueness s'"
  by (simp add: unchanged_def uniqueness_def)

lemma perform_step:
  assumes c: "coherent s" and u: "uniqueness s"
  shows "(fst (perform s cl now) = Inr () \<and> coherent (snd (perform s cl now)) \<and>
            uniqueness (snd (perform s cl now)) \<and>
            (referencesExist (categoriesOf s) (sitesOf s) \<and> categoryKnown s cl \<longrightarrow>
               referencesExist (categoriesOf (snd (perform s cl now))) (sitesOf (snd (perform s cl now))))) \<or>
         (\<exists>m. fst (perform s cl now) = Inl (AppError m VALIDATION) \<and> coherent (snd (perform s cl now)) \<and>
            unchanged s (snd (perform s cl now)))"
proof (cases cl)
  case (AddCategory category)
  show ?thesis
  proof (cases "find (\<lambda>cat. getProp cat ''id'' = getProp category ''id'') (categoriesOf s) \<noteq> None")
    case True
    with addCategory_coherent[OF c, of category now] show ?thesis by (auto simp: AddCategory)
  next
    case False
    with addCategory_coherent[OF c, of category now] obtain s' where
      s': "addCategory s category now = (Inr (), s')" "coherent s'"
        "categoriesOf s' = categoriesOf s @ [category]" "sitesOf s' = sitesOf s" by auto
    have "uniqueness s'" using u s'(3,4) False uniqueIds_snoc[of "categoriesOf s" category]
      by (simp add: uniqueness_def)
    then show ?thesis using s' referencesExist_more_categories by (auto simp: AddCategory)
  qed
next
  case (AddSite site)
  consider (dupId) "find (\<lambda>x. getProp x ''id'' = getProp site ''id'') (sitesOf s) \<noteq> None"
    | (dupUrl) "find (\<lambda>x. getProp x ''id'' = getProp site ''id'') (sitesOf s) = None"
        "find (\<lambda>x. getProp x ''url'' = getProp site ''url'') (sitesOf s) \<noteq> None"
    | (fresh) "find (\<lambda>x. getProp x ''id'' = getProp site ''id'') (sitesOf s) = None"
        "find (\<lambda>x. getProp x ''url'' = getProp site ''url'') (sitesOf s) = None" by blast
  then show ?thesis
  proof cases
    case dupId
    with addSite_coherent[OF c, of site now] show ?thesis by (auto simp: AddSite)
  next
    case dupUrl
    with addSite_coherent[OF c, of site now] show ?thesis by (auto simp: AddSite)
  next
    case fresh
    with addSite_coherent[OF c, of site now] obtain s' where
      s': "addSite s site now = (Inr (), s')" "coherent s'"
        "sitesOf s' = sitesOf s @ [site]" "categoriesOf s' = categoriesOf s" by auto
    have "uniqueness s'"
      using u s'(3,4) fresh uniqueIds_snoc[of "sitesOf s" site] uniqueUrls_snoc[of "sitesOf s" site]
      by (simp add: uniqueness_def)
    then show ?thesis using s' referencesExist_add_site by (auto simp: AddSite)
  qed
next
  case (DeleteCategory cid)
  let ?n = "length (filter (\<lambda>site. getProp site ''category'' = Some (JStr cid)) (sitesOf s))"
  show ?thesis
  proof (cases "?n > 0")
    case True
    with deleteCategory_coherent[OF c, of cid now] show ?thesis by (auto simp: DeleteCategory)
  next
    case False
    with deleteCategory_coherent[OF c, of cid now] obtain s' where
      s': "deleteCategory s cid now = (Inr (), s')" "coherent s'"
        "categoriesOf s' = filter (\<lambda>cat. getProp cat ''id'' \<noteq> Some (JStr cid)) (categoriesOf s)"
        "sitesOf s' = sitesOf s" by auto
    have "uniqueness s'" using u s'(3,4) uniqueIds_filter by (simp add: uniqueness_def)
    moreover have "referencesExist (categoriesOf s) (sitesOf s) \<Longrightarrow> referencesExist (categoriesOf s') (sitesOf s')"
      using referencesExist_delete_category[of "categoriesOf s" "sitesOf s" cid] False s'(3,4) by simp
    ultimately show ?thesis using s' by (auto simp: DeleteCategory)
  qed
next
  case (DeleteSite sid)
  let ?ys = "filter (\<lambda>site. getProp site ''id'' \<noteq> Some (JStr sid)) (sitesOf s)"
  show ?thesis
  proof (cases "length ?ys = length (sitesOf s)")
    case True
    with deleteSite_coherent[OF c, of sid now] show ?thesis by (auto simp: DeleteSite)
  next
    case False
    with deleteSite_coherent[OF c, of sid now] obtain s' where
      s': "deleteSite s sid now = (Inr (), s')" "coherent s'" "sitesOf s' = ?ys"
        "categoriesOf s' = categoriesOf s" by auto
    have "uniqueness s'" using u s'(3,4) uniqueIds_filter uniqueUrls_filter by (simp add: uniqueness_def)
    then show ?thesis using s' referencesExist_fewer_sites by (auto simp: DeleteSite)
  qed
qed

lemma perform_keeps:
  assumes "coherent s" "uniqueness s"
  shows "coherent (snd (perform s cl now))" "uniqueness (snd (perform s cl now))"
    "referencesExist (categoriesOf s) (sitesOf s) \<Longrightarrow> categoryKnown s cl \<Longrightarrow>
       referencesExist (categoriesOf (snd (perform s cl now))) (sitesOf (snd (perform s cl now)))"
  using perform_step[OF assms, of cl now] unchanged_uniqueness[OF _ assms(2)]
  by (auto simp: unchanged_def)

lemma run_keeps:
  "coherent s \<Longrightarrow> uniqueness s \<Longrightarrow> coherent (run s calls) \<and> uniqueness (run s calls)"
proof (induction calls arbitrary: s)
  case Nil
  then show ?case by simp
next
  case (Cons a calls)
  obtain cl now where a: "a = (cl, now)" by (cases a)
  show ?case using Cons.IH[OF perform_keeps(1,2)[OF Cons.prems, of cl now]] by (simp add: a)
qed

lemma run_keeps_references:
  "coherent s \<Longrightarrow> invariants s \<Longrightarrow> categoriesKnown s calls \<Longrightarrow> invariants (run s calls)"
proof (induction calls arbitrary: s)
  case Nil
  then show ?case by simp
next
  case (Cons a calls)
  obtain cl now where a: "a = (cl, now)" by (cases a)
  have u: "uniqueness s" and r: "referencesExist (categoriesOf s) (sitesOf s)"
    using Cons.prems(2) by (simp_all add: invariants_def)
  have k: "categoryKnown s cl" "categoriesKnown (snd (perform s cl now)) calls"
    using Cons.prems(3) by (simp_all add: a)
  have "invariants (snd (perform s cl now))"
    using perform_keeps[OF Cons.prems(1) u, of cl now] r k(1) by (simp add: invariants_def)
  from Cons.IH[OF perform_keeps(1)[OF Cons.prems(1) u] this k(2)] show ?case by (simp add: a)
qed

lemma getProp_spread:
  "distinct (map fst updates) \<Longrightarrow>
   getProp (spread old updates) k = (case getProp updates k of None \<Rightarrow> getProp old k | Some v \<Rightarrow> Some v)"
proof (induction updates arbitrary: old)
  case Nil
  then show ?case by (simp add: spread_def getProp_def)
next
  case (Cons a updates)
  obtain k' v' where a: "a = (k', v')" by (cases a)
  have d: "distinct (map fst updates)" and n: "k' \<notin> fst ` set updates" using Cons.prems by (auto simp: a)
  have s: "spread old (a # updates) = spread (AList.update k' v' old) updates"
    by (simp add: spread_def a)
  have m: "k = k' \<Longrightarrow> map_of updates k = None" using n by (simp add: map_of_eq_None_iff)
  show ?case unfolding s using Cons.IH[OF d, of "AList.update k' v' old"] m
    by (auto simp: getProp_def a update_conv' split: option.splits)
qed

text \<open>
  C1, as amended. Start in a coherent state of \<open>KV\<close> mode whose collections have unique
  category ids, unique bookmark ids and unique bookmark URLs, and make any sequence
  \<open>calls\<close> of \<open>addCategory\<close>, \<open>addSite\<close>, \<open>deleteCategory\<close> and \<open>deleteSite\<close>. The
  uniqueness invariants hold after the sequence, and the next call \<open>c\<close> either succeeds,
  with the uniqueness invariants holding after it, or fails with a Validation error and
  leaves the collections, the store and every array unchanged. Referential integrity is
  kept by a successful call when the call is not an \<open>addSite\<close> of a bookmark whose
  category does not exist (\<open>addSite\<close> does not check the category); so all invariants hold
  along a sequence in which every added bookmark names an existing category.
\<close>

theorem invariant_preservation:
  assumes "coherent s" and "uniqueness s"
  shows "coherent (run s calls) \<and> uniqueness (run s calls) \<and>
    ((fst (perform (run s calls) c now) = Inr () \<and>
      uniqueness (snd (perform (run s calls) c now)) \<and>
      (referencesExist (categoriesOf (run s calls)) (sitesOf (run s calls)) \<and> categoryKnown (run s calls) c \<longrightarrow>
         referencesExist (categoriesOf (snd (perform (run s calls) c now)))
           (sitesOf (snd (perform (run s calls) c now))))) \<or>
     (\<exists>m. fst (perform (run s calls) c now) = Inl (AppError m VALIDATION) \<and>
          unchanged (run s calls) (snd (perform (run s calls) c now)))) \<and>
    (invariants s \<and> categoriesKnown s calls \<longrightarrow> invariants (run s calls))"
proof -
  have k: "coherent (run s calls)" "uniqueness (run s calls)" using run_keeps[OF assms] by simp_all
  from perform_step[OF k, of c now] run_keeps_references[OF assms(1), of calls] k
  show ?thesis by blast
qed

lemma uniqueness_kv_example: "uniqueness kv_example"
  by (simp add: uniqueness_def kv_example_collections uniqueIds_def uniqueUrls_def)

lemma invariants_kv_example: "invariants kv_example"
  by (simp add: invariants_def uniqueness_kv_example kv_example_collections referencesExist_def
      getProp_def dev_def gh_def)

theorem invariant_preservation_witness:
  "coherent kv_example \<and> uniqueness kv_example \<and> invariants kv_example \<and>
   categoriesKnown kv_example [(AddCategory tools, 1)] \<and>
   coherent (run kv_example [(AddCategory tools, 1)]) \<and>
   invariants (run kv_example [(AddCategory tools, 1)])"
  using invariant_preservation[OF coherent_kv_example uniqueness_kv_example, of "[(AddCategory tools, 1)]"]
    coherent_kv_example uniqueness_kv_example invariants_kv_example
  by simp

text \<open>
  The claim as stated fails for \<open>addSite\<close>: a bookmark with the category \<open>nope\<close> is
  added with success, and no category has that id.
\<close>

theorem invariant_preservation_counterexample:
  "coherent kv_example \<and> invariants kv_example \<and>
   fst (addSite kv_example orphan 1) = Inr () \<and>
   \<not> invariants (snd (addSite kv_example orphan 1))"
proof -
  have f: "\<not> (find (\<lambda>x. getProp x ''id'' = getProp orphan ''id'') (sitesOf kv_example) \<noteq> None)"
    "\<not> (find (\<lambda>x. getProp x ''url'' = getProp orphan ''url'') (sitesOf kv_example) \<noteq> None)"
    by (simp_all add: kv_example_collections getProp_def gh_def orphan_def)
  from addSite_coherent[OF coherent_kv_example, of orphan 1] f obtain s' where
    s': "addSite kv_example orphan 1 = (Inr (), s')" "sitesOf s' = sitesOf kv_example @ [orphan]"
      "categoriesOf s' = categoriesOf kv_example" by auto
  have "\<not> referencesExist (categoriesOf s') (sitesOf s')"
    by (simp add: s' kv_example_collections referencesExist_def getProp_def gh_def dev_def orphan_def)
  then show ?thesis using s' coherent_kv_example invariants_kv_example by (simp add: invariants_def)
qed

text \<open>
  C4, as amended. In a coherent state of \<open>KV\<close> mode, \<open>updateCategory\<close> and \<open>updateSite\<close>
  with the id of a record replace the first record of that id by the record with the
  fields of the partial written over it, and leave everything else; with an id that no
  record has they fail with a Validation error and change nothing. A field of the merged
  record is the partial's where the partial has it and the existing record's otherwise:
  \<open>lastModified\<close> is set when the caller puts it into the partial, as the HTTP handlers
  do, and is not stamped by the data manager.
\<close>

theorem update_merges_partial:
  assumes "coherent s"
  shows "(case findIndex (\<lambda>cat. getProp cat ''id'' = Some (JStr categoryId)) (categoriesOf s) of
            None \<Rightarrow> fst (updateCategory s categoryId updates now) = Inl (AppError (CategoryMissing categoryId) VALIDATION) \<and>
                     unchanged s (snd (updateCategory s categoryId updates now))
          | Some index \<Rightarrow> fst (updateCategory s categoryId updates now) = Inr () \<and>
                     categoriesOf (snd (updateCategory s categoryId updates now))
                       = (categoriesOf s)[index := spread (categoriesOf s ! index) updates] \<and>
                     sitesOf (snd (updateCategory s categoryId updates now)) = sitesOf s) \<and>
         (case findIndex (\<lambda>site. getProp site ''id'' = Some (JStr siteId)) (sitesOf s) of
            None \<Rightarrow> fst (updateSite s siteId updates now) = Inl (AppError (SiteMissing siteId) VALIDATION) \<and>
                     unchanged s (snd (updateSite s siteId updates now))
          | Some index \<Rightarrow> fst (updateSite s siteId updates now) = Inr () \<and>
                     sitesOf (snd (updateSite s siteId updates now))
                       = (sitesOf s)[index := spread (sitesOf s ! index) updates] \<and>
                     categoriesOf (snd (updateSite s siteId updates now)) = categoriesOf s) \<and>
         (distinct (map fst updates) \<longrightarrow>
            (\<forall>existing k. getProp (spread existing updates) k =
               (case getProp updates k of None \<Rightarrow> getProp existing k | Some v \<Rightarrow> Some v)))"
proof -
  have a: "case findIndex (\<lambda>cat. getProp cat ''id'' = Some (JStr categoryId)) (categoriesOf s) of
            None \<Rightarrow> fst (updateCategory s categoryId updates now) = Inl (AppError (CategoryMissing categoryId) VALIDATION) \<and>
                     unchanged s (snd (updateCategory s categoryId updates now))
          | Some index \<Rightarrow> fst (updateCategory s categoryId updates now) = Inr () \<and>
                     categoriesOf (snd (updateCategory s categoryId updates now))
                       = (categoriesOf s)[index := spread (categoriesOf s ! index) updates] \<and>
                     sitesOf (snd (updateCategory s categoryId updates now)) = sitesOf s"
    using updateCategory_coherent[OF assms, of categoryId updates now] by (auto split: option.splits)
  have b: "case findIndex (\<lambda>site. getProp site ''id'' = Some (JStr siteId)) (sitesOf s) of
            None \<Rightarrow> fst (updateSite s siteId updates now) = Inl (AppError (SiteMissing siteId) VALIDATION) \<and>
                     unchanged s (snd (updateSite s siteId updates now))
          | Some index \<Rightarrow> fst (updateSite s siteId updates now) = Inr () \<and>
                     sitesOf (snd (updateSite s siteId updates now))
                       = (sitesOf s)[index := spread (sitesOf s ! index) updates] \<and>
                     categoriesOf (snd (updateSite s siteId updates now)) = categoriesOf s"
    using updateSite_coherent[OF assms, of siteId updates now] by (auto split: option.splits)
  from a b getProp_spread show ?thesis by blast
qed

theorem update_merges_partial_witness:
  "coherent kv_example \<and> distinct (map fst [(''name'', JStr ''D''), (''lastModified'', JNum 5)]) \<and>
   fst (updateCategory kv_example ''dev'' [(''name'', JStr ''D''), (''lastModified'', JNum 5)] 5) = Inr () \<and>
   categoriesOf (snd (updateCategory kv_example ''dev'' [(''name'', JStr ''D''), (''lastModified'', JNum 5)] 5))
     = [[(''id'', JStr ''dev''), (''name'', JStr ''D''), (''icon'', JStr ''pc''), (''lastModified'', JNum 5)]] \<and>
   fst (updateSite kv_example ''zz'' [(''name'', JStr ''D''), (''lastModified'', JNum 5)] 5)
     = Inl (AppError (SiteMissing ''zz'') VALIDATION)"
proof -
  have i: "findIndex (\<lambda>cat. getProp cat ''id'' = Some (JStr ''dev'')) (categoriesOf kv_example) = Some 0"
    "findIndex (\<lambda>site. getProp site ''id'' = Some (JStr ''zz'')) (sitesOf kv_example) = None"
    by (simp_all add: kv_example_collections getProp_def dev_def gh_def)
  have sp: "[dev][0 := spread ([dev] ! 0) [(''name'', JStr ''D''), (''lastModified'', JNum 5)]]
     = [[(''id'', JStr ''dev''), (''name'', JStr ''D''), (''icon'', JStr ''pc''), (''lastModified'', JNum 5)]]"
    by (simp add: spread_def dev_def)
  from update_merges_partial[OF coherent_kv_example, of "''dev''" "[(''name'', JStr ''D''), (''lastModified'', JNum 5)]" 5 "''zz''"]
    i sp coherent_kv_example
  show ?thesis by (simp add: kv_example_collections)
qed

text \<open>
  The claim as stated fails on a partial without \<open>lastModified\<close>: the updated record
  has no such field.
\<close>

theorem update_merges_partial_counterexample:
  "fst (updateCategory kv_example ''dev'' [(''name'', JStr ''D'')] 5) = Inr () \<and>
   categoriesOf (snd (updateCategory kv_example ''dev'' [(''name'', JStr ''D'')] 5))
     = [[(''id'', JStr ''dev''), (''name'', JStr ''D''), (''icon'', JStr ''pc'')]] \<and>
   getProp (categoriesOf (snd (updateCategory kv_example ''dev'' [(''name'', JStr ''D'')] 5)) ! 0) ''lastModified'' = None"
proof -
  have i: "findIndex (\<lambda>cat. getProp cat ''id'' = Some (JStr ''dev'')) (categoriesOf kv_example) = Some 0"
    by (simp add: kv_example_collections getProp_def dev_def)
  have sp: "[dev][0 := spread ([dev] ! 0) [(''name'', JStr ''D'')]]
     = [[(''id'', JStr ''dev''), (''name'', JStr ''D''), (''icon'', JStr ''pc'')]]"
    by (simp add: spread_def dev_def)
  from updateCategory_coherent[OF coherent_kv_example, of "''dev''" "[(''name'', JStr ''D'')]" 5] i sp
  show ?thesis by (auto simp: kv_example_collections getProp_def)
qed



section \<open>The data manager in \<open>STATIC\<close> mode\<close>

lemma static_getData:
  assumes i: "isInitialized s" and d: "dataSource s = STATIC"
    and h: "\<forall>e. centry s (dataManager_getCacheKey name) = Some e \<longrightarrow> data e = ArrayRef static"
  shows "\<exists>s'. getData name kvKey static s u now = (ArrayRef static, s') \<and>
           evolves {dataManager_getCacheKey name} {} s s' \<and> heap s' = heap s \<and> kv s' = kv s \<and>
           (\<forall>e. centry s' (dataManager_getCacheKey name) = Some e \<longrightarrow> data e = ArrayRef static)"
proof -
  let ?dm = "dataManager_getCacheKey name"
  obtain r1 s1 where c: "(if u then cache_get s ?dm now else (None, s)) = (r1, s1)"
    by (cases "(if u then cache_get s ?dm now else (None, s))")
  have e1: "evolves {} {} s s1" and h1: "heap s1 = heap s" and k1: "kv s1 = kv s"
    and r1: "r1 = None \<or> (\<exists>e. centry s ?dm = Some e \<and> r1 = Some (data e) \<and> centry s1 ?dm = Some e)"
    using c cache_get_ev[of s ?dm now r1 s1] by (auto simp: evolves_refl split: if_splits)
  have d1: "dataSource s1 = STATIC" using evolvesD(3)[OF e1] d by simp
  have hs1: "\<forall>e. centry s1 ?dm = Some e \<longrightarrow> data e = ArrayRef static"
    using evolvesD(5)[OF e1, of ?dm] h by auto
  show ?thesis
  proof (cases r1)
    case (Some c1)
    then have "c1 = ArrayRef static" using r1 h by auto
    then have "getData name kvKey static s u now = (ArrayRef static, s1)"
      using c Some i by (simp add: getData_def ensureInitialized_def Let_def split: prod.splits)
    then show ?thesis using evolves_mono[OF e1] h1 k1 hs1 by auto
  next
    case None
    let ?s2 = "cache_set s1 ?dm (ArrayRef static) dataManager_cacheTTL now"
    have g: "getData name kvKey static s u now = (ArrayRef static, ?s2)"
      using c None i d1 by (simp add: getData_def ensureInitialized_def Let_def split: prod.splits)
    have e2: "evolves {?dm} {} s ?s2" by (rule evolves_trans'[OF e1 cache_set_ev(1)]) auto
    show ?thesis using g e2 cache_set_ev(2,3,4)[of s1 ?dm "ArrayRef static" dataManager_cacheTTL now] h1 k1
      by auto
  qed
qed

lemma static_mode_evolves:
  assumes "static_mode s" "evolves CK SK s s'"
    "\<forall>e. centry s' (dataManager_getCacheKey ''categories'') = Some e \<longrightarrow> data e = ArrayRef staticCategories"
    "\<forall>e. centry s' (dataManager_getCacheKey ''sites'') = Some e \<longrightarrow> data e = ArrayRef staticSites"
  shows "static_mode s'"
  using assms evolvesD(3,4)[OF assms(2)] by (simp add: static_mode_def)

lemma static_entries_evolves:
  assumes "\<forall>e. centry s k = Some e \<longrightarrow> data e = v" "evolves CK SK s s'" "k \<notin> CK"
  shows "\<forall>e. centry s' k = Some e \<longrightarrow> data e = v"
  using assms(1) evolvesD(5)[OF assms(2,3)] by auto

lemma static_getCategories:
  assumes "static_mode s"
  shows "\<exists>s'. getCategories s u now = (ArrayRef staticCategories, s') \<and> static_mode s' \<and>
           heap s' = heap s \<and> kv s' = kv s"
proof -
  have a: "isInitialized s" "dataSource s = STATIC"
    "\<forall>e. centry s (dataManager_getCacheKey ''categories'') = Some e \<longrightarrow> data e = ArrayRef staticCategories"
    "\<forall>e. centry s (dataManager_getCacheKey ''sites'') = Some e \<longrightarrow> data e = ArrayRef staticSites"
    using assms by (simp_all add: static_mode_def)
  from static_getData[OF a(1,2,3), of KV_CATEGORIES u now] obtain s' where
    s': "getData ''categories'' KV_CATEGORIES staticCategories s u now = (ArrayRef staticCategories, s')"
      "evolves {dataManager_getCacheKey ''categories''} {} s s'" "heap s' = heap s" "kv s' = kv s"
      "\<forall>e. centry s' (dataManager_getCacheKey ''categories'') = Some e \<longrightarrow> data e = ArrayRef staticCategories"
    by blast
  have "static_mode s'"
    by (rule static_mode_evolves[OF assms s'(2,5)]) (rule static_entries_evolves[OF a(4) s'(2)], simp)
  then show ?thesis using s' by (simp add: getCategories_def)
qed

lemma static_getSites:
  assumes "static_mode s"
  shows "\<exists>s'. getSites s u now = (ArrayRef staticSites, s') \<and> static_mode s' \<and>
           heap s' = heap s \<and> kv s' = kv s"
proof -
  have a: "isInitialized s" "dataSource s = STATIC"
    "\<forall>e. centry s (dataManager_getCacheKey ''categories'') = Some e \<longrightarrow> data e = ArrayRef staticCategories"
    "\<forall>e. centry s (dataManager_getCacheKey ''sites'') = Some e \<longrightarrow> data e = ArrayRef staticSites"
    using assms by (simp_all add: static_mode_def)
  from static_getData[OF a(1,2,4), of KV_SITES u now] obtain s' where
    s': "getData ''sites'' KV_SITES staticSites s u now = (ArrayRef staticSites, s')"
      "evolves {dataManager_getCacheKey ''sites''} {} s s'" "heap s' = heap s" "kv s' = kv s"
      "\<forall>e. centry s' (dataManager_getCacheKey ''sites'') = Some e \<longrightarrow> data e = ArrayRef staticSites"
    by blast
  have "static_mode s'"
    by (rule static_mode_evolves[OF assms s'(2) _ s'(5)]) (rule static_entries_evolves[OF a(3) s'(2)], simp)
  then show ?thesis using s' by (simp add: getSites_def)
qed

lemma static_mode_heap [simp]: "static_mode (s\<lparr>heap := h\<rparr>) = static_mode s"
  by (simp add: static_mode_def)

lemma static_saveData:
  "static_mode s \<Longrightarrow> saveData name kvKey s v now = (Inl (AppError StaticModeNoSave UNKNOWN), s)"
  by (simp add: static_mode_def saveData_def ensureInitialized_def handleError_generic_def)

lemma static_addCategory:
  assumes "static_mode s"
  shows "fst (addCategory s category now) =
           Inl (if find (\<lambda>cat. getProp cat ''id'' = getProp category ''id'') (bundledCategories s) \<noteq> None
                then AppError (CategoryIdExists (getProp category ''id'')) VALIDATION
                else AppError StaticModeNoSave UNKNOWN)"
    and "static_mode (snd (addCategory s category now))" and "kv (snd (addCategory s category now)) = kv s"
    and "find (\<lambda>cat. getProp cat ''id'' = getProp category ''id'') (bundledCategories s) \<noteq> None \<Longrightarrow>
           heap (snd (addCategory s category now)) = heap s"
proof -
  from static_getCategories[OF assms, of True now] obtain s1 where
    s1: "getCategories s True now = (ArrayRef staticCategories, s1)" "static_mode s1" "heap s1 = heap s" "kv s1 = kv s"
    by blast
  show "fst (addCategory s category now) =
           Inl (if find (\<lambda>cat. getProp cat ''id'' = getProp category ''id'') (bundledCategories s) \<noteq> None
                then AppError (CategoryIdExists (getProp category ''id'')) VALIDATION
                else AppError StaticModeNoSave UNKNOWN)"
    and "static_mode (snd (addCategory s category now))" and "kv (snd (addCategory s category now)) = kv s"
    and "find (\<lambda>cat. getProp cat ''id'' = getProp category ''id'') (bundledCategories s) \<noteq> None \<Longrightarrow>
           heap (snd (addCategory s category now)) = heap s"
    using s1 by (simp_all add: addCategory_def bundledCategories_def saveCategories_def static_saveData)
qed

lemma static_addSite:
  assumes "static_mode s"
  shows "fst (addSite s site now) =
           Inl (if find (\<lambda>x. getProp x ''id'' = getProp site ''id'') (bundledSites s) \<noteq> None
                then AppError (SiteIdExists (getProp site ''id'')) VALIDATION
                else if find (\<lambda>x. getProp x ''url'' = getProp site ''url'') (bundledSites s) \<noteq> None
                then AppError (SiteUrlExists (getProp site ''url'')) VALIDATION
                else AppError StaticModeNoSave UNKNOWN)"
    and "static_mode (snd (addSite s site now))" and "kv (snd (addSite s site now)) = kv s"
proof -
  from static_getSites[OF assms, of True now] obtain s1 where
    s1: "getSites s True now = (ArrayRef staticSites, s1)" "static_mode s1" "heap s1 = heap s" "kv s1 = kv s"
    by blast
  show "fst (addSite s site now) =
           Inl (if find (\<lambda>x. getProp x ''id'' = getProp site ''id'') (bundledSites s) \<noteq> None
                then AppError (SiteIdExists (getProp site ''id'')) VALIDATION
                else if find (\<lambda>x. getProp x ''url'' = getProp site ''url'') (bundledSites s) \<noteq> None
                then AppError (SiteUrlExists (getProp site ''url'')) VALIDATION
                else AppError StaticModeNoSave UNKNOWN)"
    and "static_mode (snd (addSite s site now))" and "kv (snd (addSite s site now)) = kv s"
    using s1 by (simp_all add: addSite_def bundledSites_def saveSites_def static_saveData)
qed

lemma static_updateCategory:
  assumes "static_mode s"
  shows "fst (updateCategory s categoryId updates now) =
           Inl (if findIndex (\<lambda>cat. getProp cat ''id'' = Some (JStr categoryId)) (bundledCategories s) = None
                then AppError (CategoryMissing categoryId) VALIDATION
                else AppError StaticModeNoSave UNKNOWN)"
    and "static_mode (snd (updateCategory s categoryId updates now))"
    and "kv (snd (updateCategory s categoryId updates now)) = kv s"
proof -
  from static_getCategories[OF assms, of True now] obtain s1 where
    s1: "getCategories s True now = (ArrayRef staticCategories, s1)" "static_mode s1" "heap s1 = heap s" "kv s1 = kv s"
    by blast
  show "fst (updateCategory s categoryId updates now) =
           Inl (if findIndex (\<lambda>cat. getProp cat ''id'' = Some (JStr categoryId)) (bundledCategories s) = None
                then AppError (CategoryMissing categoryId) VALIDATION
                else AppError StaticModeNoSave UNKNOWN)"
    and "static_mode (snd (updateCategory s categoryId updates now))"
    and "kv (snd (updateCategory s categoryId updates now)) = kv s"
    using s1 by (auto simp: updateCategory_def bundledCategories_def saveCategories_def static_saveData
        split: option.splits)
qed

lemma static_updateSite:
  assumes "static_mode s"
  shows "fst (updateSite s siteId updates now) =
           Inl (if findIndex (\<lambda>site. getProp site ''id'' = Some (JStr siteId)) (bundledSites s) = None
                then AppError (SiteMissing siteId) VALIDATION
                else AppError StaticModeNoSave UNKNOWN)"
    and "static_mode (snd (updateSite s siteId updates now))"
    and "kv (snd (updateSite s siteId updates now)) = kv s"
proof -
  from static_getSites[OF assms, of True now] obtain s1 where
    s1: "getSites s True now = (ArrayRef staticSites, s1)" "static_mode s1" "heap s1 = heap s" "kv s1 = kv s"
    by blast
  show "fst (updateSite s siteId updates now) =
           Inl (if findIndex (\<lambda>site. getProp site ''id'' = Some (JStr siteId)) (bundledSites s) = None
                then AppError (SiteMissing siteId) VALIDATION
                else AppError StaticModeNoSave UNKNOWN)"
    and "static_mode (snd (updateSite s siteId updates now))"
    and "kv (snd (updateSite s siteId updates now)) = kv s"
    using s1 by (auto simp: updateSite_def bundledSites_def saveSites_def static_saveData
        split: option.splits)
qed

lemma static_deleteSite:
  assumes "static_mode s"
  shows "fst (deleteSite s siteId now) =
           Inl (if length (filter (\<lambda>site. getProp site ''id'' \<noteq> Some (JStr siteId)) (bundledSites s))
                     = length (bundledSites s)
                then AppError (SiteMissing siteId) VALIDATION
                else AppError StaticModeNoSave UNKNOWN)"
    and "static_mode (snd (deleteSite s siteId now))"
    and "kv (snd (deleteSite s siteId now)) = kv s"
    and "take (length (heap s)) (heap (snd (deleteSite s siteId now))) = heap s"
proof -
  from static_getSites[OF assms, of True now] obtain s1 where
    s1: "getSites s True now = (ArrayRef staticSites, s1)" "static_mode s1" "heap s1 = heap s" "kv s1 = kv s"
    by blast
  show "fst (deleteSite s siteId now) =
           Inl (if length (filter (\<lambda>site. getProp site ''id'' \<noteq> Some (JStr siteId)) (bundledSites s))
                     = length (bundledSites s)
                then AppError (SiteMissing siteId) VALIDATION
                else AppError StaticModeNoSave UNKNOWN)"
    and "static_mode (snd (deleteSite s siteId now))"
    and "kv (snd (deleteSite s siteId now)) = kv s"
    and "take (length (heap s)) (heap (snd (deleteSite s siteId now))) = heap s"
    using s1 by (simp_all add: deleteSite_def bundledSites_def saveSites_def static_saveData alloc_def Let_def)
qed

lemma static_deleteCategory:
  assumes "static_mode s"
  shows "fst (deleteCategory s categoryId now) =
           Inl (if length (filter (\<lambda>site. getProp site ''category'' = Some (JStr categoryId)) (bundledSites s)) > 0
                then AppError (CategoryInUse categoryId
                       (length (filter (\<lambda>site. getProp site ''category'' = Some (JStr categoryId)) (bundledSites s))))
                       VALIDATION
                else AppError StaticModeNoSave UNKNOWN)"
    and "static_mode (snd (deleteCategory s categoryId now))"
    and "kv (snd (deleteCategory s categoryId now)) = kv s"
    and "take (length (heap s)) (heap (snd (deleteCategory s categoryId now))) = heap s"
proof -
  from static_getCategories[OF assms, of True now] obtain s1 where
    s1: "getCategories s True now = (ArrayRef staticCategories, s1)" "static_mode s1" "heap s1 = heap s" "kv s1 = kv s"
    by blast
  from static_getSites[OF s1(2), of True now] obtain s2 where
    s2: "getSites s1 True now = (ArrayRef staticSites, s2)" "static_mode s2" "heap s2 = heap s1" "kv s2 = kv s1"
    by blast
  show "fst (deleteCategory s categoryId now) =
           Inl (if length (filter (\<lambda>site. getProp site ''category'' = Some (JStr categoryId)) (bundledSites s)) > 0
                then AppError (CategoryInUse categoryId
                       (length (filter (\<lambda>site. getProp site ''category'' = Some (JStr categoryId)) (bundledSites s))))
                       VALIDATION
                else AppError StaticModeNoSave UNKNOWN)"
    and "static_mode (snd (deleteCategory s categoryId now))"
    and "kv (snd (deleteCategory s categoryId now)) = kv s"
    and "take (length (heap s)) (heap (snd (deleteCategory s categoryId now))) = heap s"
    using s1 s2
    by (simp_all add: deleteCategory_def bundledSites_def saveCategories_def static_saveData alloc_def Let_def)
qed

text \<open>
  Without a store, \<open>init\<close> selects \<open>STATIC\<close>; with nothing cached yet the state is one of
  \<^const>\<open>static_mode\<close>, and every call below keeps it so.
\<close>

lemma static_mode_at_startup:
  assumes "\<not> isKVAvailable s"
    "centry s (dataManager_getCacheKey ''categories'') = None"
    "centry s (dataManager_getCacheKey ''sites'') = None"
  shows "static_mode (init s now)"
  using assms by (simp add: static_mode_def init_def centry_def)

text \<open>
  An \<open>addCategory\<close> that passes its check pushes onto the bundled array before the save
  is refused, so the bundled array is longer afterwards.
\<close>

lemma static_addCategory_changes_bundled:
  assumes "static_mode s" "staticCategories < length (heap s)"
    "find (\<lambda>cat. getProp cat ''id'' = getProp category ''id'') (bundledCategories s) = None"
  shows "bundledCategories (snd (addCategory s category now)) = bundledCategories s @ [category]"
proof -
  from static_getCategories[OF assms(1), of True now] obtain s1 where
    s1: "getCategories s True now = (ArrayRef staticCategories, s1)" "static_mode s1" "heap s1 = heap s" "kv s1 = kv s"
    by blast
  show ?thesis using s1 assms(2,3)
    by (simp add: addCategory_def bundledCategories_def saveCategories_def static_saveData deref_def)
qed

text \<open>
  C3, as amended. In \<open>STATIC\<close> mode \<open>getCategories\<close> and \<open>getSites\<close> return the bundled
  arrays and change no array, with or without the cache and at any time. Every write call
  fails: with the Validation error of its own check when that check rejects the call
  (an id or URL that exists for the two \<open>add\<close> calls, an id that does not exist for the
  two \<open>update\<close> calls and \<open>deleteSite\<close>, a category in use for \<open>deleteCategory\<close>), and
  with the read-only-mode error otherwise. The two \<open>delete\<close> calls change no array. All
  calls keep the state one of \<open>STATIC\<close> mode, so this holds along every sequence of calls.
\<close>

theorem static_mode_read_only:
  assumes "static_mode s"
  shows "fst (getCategories s u now) = ArrayRef staticCategories \<and>
         heap (snd (getCategories s u now)) = heap s \<and> static_mode (snd (getCategories s u now)) \<and>
         fst (getSites s u now) = ArrayRef staticSites \<and>
         heap (snd (getSites s u now)) = heap s \<and> static_mode (snd (getSites s u now)) \<and>
         fst (addCategory s category now) =
           Inl (if find (\<lambda>cat. getProp cat ''id'' = getProp category ''id'') (bundledCategories s) \<noteq> None
                then AppError (CategoryIdExists (getProp category ''id'')) VALIDATION
                else AppError StaticModeNoSave UNKNOWN) \<and>
         static_mode (snd (addCategory s category now)) \<and>
         fst (updateCategory s categoryId updates now) =
           Inl (if findIndex (\<lambda>cat. getProp cat ''id'' = Some (JStr categoryId)) (bundledCategories s) = None
                then AppError (CategoryMissing categoryId) VALIDATION
                else AppError StaticModeNoSave UNKNOWN) \<and>
         static_mode (snd (updateCategory s categoryId updates now)) \<and>
         fst (deleteCategory s categoryId now) =
           Inl (if length (filter (\<lambda>site. getProp site ''category'' = Some (JStr categoryId)) (bundledSites s)) > 0
                then AppError (CategoryInUse categoryId
                       (length (filter (\<lambda>site. getProp site ''category'' = Some (JStr categoryId)) (bundledSites s))))
                       VALIDATION
                else AppError StaticModeNoSave UNKNOWN) \<and>
         static_mode (snd (deleteCategory s categoryId now)) \<and>
         take (length (heap s)) (heap (snd (deleteCategory s categoryId now))) = heap s \<and>
         fst (addSite s site now) =
           Inl (if find (\<lambda>x. getProp x ''id'' = getProp site ''id'') (bundledSites s) \<noteq> None
                then AppError (SiteIdExists (getProp site ''id'')) VALIDATION
                else if find (\<lambda>x. getProp x ''url'' = getProp site ''url'') (bundledSites s) \<noteq> None
                then AppError (SiteUrlExists (getProp site ''url'')) VALIDATION
                else AppError StaticModeNoSave UNKNOWN) \<and>
         static_mode (snd (addSite s site now)) \<and>
         fst (updateSite s siteId updates now) =
           Inl (if findIndex (\<lambda>site. getProp site ''id'' = Some (JStr siteId)) (bundledSites s) = None
                then AppError (SiteMissing siteId) VALIDATION
                else AppError StaticModeNoSave UNKNOWN) \<and>
         static_mode (snd (updateSite s siteId updates now)) \<and>
         fst (deleteSite s siteId now) =
           Inl (if length (filter (\<lambda>site. getProp site ''id'' \<noteq> Some (JStr siteId)) (bundledSites s))
                     = length (bundledSites s)
                then AppError (SiteMissing siteId) VALIDATION
                else AppError StaticModeNoSave UNKNOWN) \<and>
         static_mode (snd (deleteSite s siteId now)) \<and>
         take (length (heap s)) (heap (snd (deleteSite s siteId now))) = heap s"
proof -
  from static_getCategories[OF assms, of u now]
  have a: "fst (getCategories s u now) = ArrayRef staticCategories \<and>
         heap (snd (getCategories s u now)) = heap s \<and> static_mode (snd (getCategories s u now))" by auto
  from static_getSites[OF assms, of u now]
  have b: "fst (getSites s u now) = ArrayRef staticSites \<and>
         heap (snd (getSites s u now)) = heap s \<and> static_mode (snd (getSites s u now))" by auto
  show ?thesis
    by (intro conjI a[THEN conjunct1] a[THEN conjunct2, THEN conjunct1] a[THEN conjunct2, THEN conjunct2]
        b[THEN conjunct1] b[THEN conjunct2, THEN conjunct1] b[THEN conjunct2, THEN conjunct2]
        static_addCategory(1,2)[OF assms] static_updateCategory(1,2)[OF assms]
        static_deleteCategory(1,2,4)[OF assms] static_addSite(1,2)[OF assms]
        static_updateSite(1,2)[OF assms] static_deleteSite(1,2,4)[OF assms])
qed

lemma static_mode_static_example: "static_mode static_example"
  by (simp add: static_mode_def static_example_def centry_def CacheManager_new_def MemoryCache_new_def)

lemma static_example_bundled: "bundledCategories static_example = [dev]" "bundledSites static_example = [gh]"
  by (simp_all add: bundledCategories_def bundledSites_def static_example_def deref_def key_defs)

theorem static_mode_read_only_witness:
  "static_mode static_example \<and>
   fst (getCategories static_example True 1) = ArrayRef staticCategories \<and>
   heap (snd (getCategories static_example True 1)) = heap static_example \<and>
   fst (addCategory static_example tools 1) = Inl (AppError StaticModeNoSave UNKNOWN) \<and>
   fst (deleteSite static_example ''gh'' 1) = Inl (AppError StaticModeNoSave UNKNOWN) \<and>
   take (length (heap static_example)) (heap (snd (deleteSite static_example ''gh'' 1))) = heap static_example"
  using static_mode_read_only[OF static_mode_static_example, of True 1 tools _ _ _ "''gh''"]
    static_mode_static_example
  by (simp add: static_example_bundled getProp_def dev_def gh_def tools_def)

text \<open>
  The claim as stated fails where a check comes first: adding a category whose id exists
  fails with a Validation error, not with the read-only-mode error.
\<close>

theorem static_mode_read_only_counterexample:
  "static_mode static_example \<and>
   fst (addCategory static_example dev 1) = Inl (AppError (CategoryIdExists (Some (JStr ''dev''))) VALIDATION) \<and>
   fst (addCategory static_example dev 1) \<noteq> Inl (AppError StaticModeNoSave UNKNOWN)"
  using static_addCategory(1)[OF static_mode_static_example, of dev 1] static_mode_static_example
  by (simp add: static_example_bundled getProp_def dev_def)

lemma static_example_bundled_changed:
  "fst (addCategory static_example tools 1) = Inl (AppError StaticModeNoSave UNKNOWN) \<and>
   bundledCategories (snd (addCategory static_example tools 1)) = [dev, tools]"
proof -
  have l: "staticCategories < length (heap static_example)" by (simp add: static_example_def key_defs)
  have f: "find (\<lambda>cat. getProp cat ''id'' = getProp tools ''id'') (bundledCategories static_example) = None"
    by (simp add: static_example_bundled getProp_def dev_def tools_def)
  from static_addCategory_changes_bundled[OF static_mode_static_example l f, of 1]
    static_addCategory(1)[OF static_mode_static_example, of tools 1] f
  show ?thesis by (simp add: static_example_bundled)
qed

section \<open>Properties of the migration\<close>

lemma checkSites_None:
  "checkSites cats sites = None \<Longrightarrow>
   \<forall>site\<in>set sites. find (\<lambda>cat. getProp cat ''id'' = getProp site ''category'') cats \<noteq> None"
  by (induction sites) (auto split: if_splits)

lemma length_remdups_distinct: "length (remdups xs) = length xs \<longleftrightarrow> distinct xs"
  by (metis distinct_remdups length_remdups_eq remdups_id_iff_distinct)

lemma validationError_None:
  assumes "validationError cats sites = None"
  shows "uniqueIds cats" "uniqueIds sites" "referencesExist cats sites"
proof -
  have l: "length (remdups (map f xs)) = length xs \<longleftrightarrow> distinct (map f xs)" for f :: "obj \<Rightarrow> jsval option" and xs
    using length_remdups_distinct[of "map f xs"] by simp
  from assms have a: "checkSites cats sites = None"
    and b: "distinct (map (\<lambda>cat. getProp cat ''id'') cats)"
    and c: "distinct (map (\<lambda>site. getProp site ''id'') sites)"
    by (simp_all add: validationError_def Let_def l split: option.splits if_splits)
  show "uniqueIds cats" using b by (simp add: uniqueIds_def)
  show "uniqueIds sites" using c by (simp add: uniqueIds_def)
  show "referencesExist cats sites" using checkSites_None[OF a] by (simp add: referencesExist_def list_all_iff)
qed

lemma migrate_validation_failure:
  assumes av: "isKVAvailable s"
    and ve: "validationError (bundledCategories s) (bundledSites s) = Some e"
  shows "\<exists>mt'. migrateToKV dataVersion mt s now = (False, mt', s) \<and> status mt' = FAILED \<and> errors mt' = [e]"
  using assms
  by (simp add: migrateToKV_def checkPrerequisites_def validateData_def log_def Let_def
      bundledCategories_def bundledSites_def)

lemma migrationFailed_status [simp]:
  "status (migrationFailed mt e) = FAILED" "errors (migrationFailed mt e) \<noteq> []"
  by (simp_all add: migrationFailed_def log_def Let_def)

lemma sentry_cache_delete [simp]: "sentry (cache_delete s k) k' = sentry s k'"
  by (simp add: sentry_def cache_delete_def)

lemma sentry_clearCache [simp]: "sentry (dataManager_clearCache s t) k = sentry s k"
  by (simp add: dataManager_clearCache_def Let_def split: option.splits)

lemma migrate_outcome:
  assumes av: "isKVAvailable s"
    and ve: "validationError (bundledCategories s) (bundledSites s) = None"
    and st: "staticCategories < length (heap s)" "staticSites < length (heap s)"
  shows "(\<not> fst (migrateToKV dataVersion mt s now) \<and>
          status (fst (snd (migrateToKV dataVersion mt s now))) = FAILED \<and>
          errors (fst (snd (migrateToKV dataVersion mt s now))) \<noteq> []) \<or>
         (fst (migrateToKV dataVersion mt s now) \<and>
          status (fst (snd (migrateToKV dataVersion mt s now))) = COMPLETED \<and>
          progress (fst (snd (migrateToKV dataVersion mt s now))) = 100 \<and>
          errors (fst (snd (migrateToKV dataVersion mt s now))) = [] \<and>
          sentry (snd (snd (migrateToKV dataVersion mt s now))) KV_CATEGORIES = Some (Collection (bundledCategories s)) \<and>
          sentry (snd (snd (migrateToKV dataVersion mt s now))) KV_SITES = Some (Collection (bundledSites s)))"
proof -
  note defs = migrateToKV_def checkPrerequisites_def validateData_def bundledCategories_def
    bundledSites_def Let_def log_def
  have ve': "validationError (deref (heap s) staticCategories) (deref (heap s) staticSites) = None"
    using ve by (simp add: bundledCategories_def bundledSites_def)
  obtain r1 s1 where g1: "kvAdapter_get s KV_CATEGORIES False now = (r1, s1)"
    by (cases "kvAdapter_get s KV_CATEGORIES False now")
  note e1 = kvAdapter_get_ev(1)[OF g1]
  show ?thesis
  proof (cases r1)
    case (Inl e)
    then show ?thesis using av ve' g1 by (simp add: defs)
  next
    case x1: (Inr x1)
    obtain r2 s2 where g2: "kvAdapter_get s1 KV_SITES False now = (r2, s2)"
      by (cases "kvAdapter_get s1 KV_SITES False now")
    note e2 = kvAdapter_get_ev(1)[OF g2]
    show ?thesis
    proof (cases r2)
      case (Inl e)
      then show ?thesis using av ve' g1 x1 g2 by (simp add: defs)
    next
      case x2: (Inr x2)
      obtain r3 s3 where g3: "kvAdapter_set s2 KV_CATEGORIES (ArrayRef staticCategories) now = (r3, s3)"
        by (cases "kvAdapter_set s2 KV_CATEGORIES (ArrayRef staticCategories) now")
      note e3 = kvAdapter_set_ev(1)[OF g3]
      show ?thesis
      proof (cases r3)
        case (Inl e)
        then show ?thesis using av ve' g1 x1 g2 x2 g3 by (simp add: defs)
      next
        case x3: (Inr x3)
        obtain r4 s4 where g4: "kvAdapter_set s3 KV_SITES (ArrayRef staticSites) now = (r4, s4)"
          by (cases "kvAdapter_set s3 KV_SITES (ArrayRef staticSites) now")
        note e4 = kvAdapter_set_ev(1)[OF g4]
        show ?thesis
        proof (cases r4)
          case (Inl e)
          then show ?thesis using av ve' g1 x1 g2 x2 g3 x3 g4 by (simp add: defs)
        next
          case x4: (Inr x4)
          let ?md = "MetaObj
                [(''categories'', Counted (Some (length (deref (heap s4) staticCategories))) now),
                 (''sites'', Counted (Some (length (deref (heap s4) staticSites))) now),
                 (''migration'', Migration dataVersion DATA_VERSION_CURRENT now)]"
          obtain r5 s5 where g5: "kvAdapter_set s4 KV_METADATA ?md now = (r5, s5)"
            by (cases "kvAdapter_set s4 KV_METADATA ?md now")
          note e5 = kvAdapter_set_ev(1)[OF g5]
          show ?thesis
          proof (cases r5)
            case (Inl e)
            then show ?thesis using av ve' g1 x1 g2 x2 g3 x3 g4 x4 g5 by (simp add: defs)
          next
            case x5: (Inr x5)
            obtain r6 s6 where g6: "setVersion s5 DATA_VERSION_CURRENT now = (r6, s6)"
              by (cases "setVersion s5 DATA_VERSION_CURRENT now")
            have e6: "evolves {kvAdapter_getCacheKey KV_VERSION} {KV_VERSION} s5 s6"
              using g6 kvAdapter_set_ev(1) by (simp add: setVersion_def)
            show ?thesis
            proof (cases r6)
              case (Inl e)
              then show ?thesis using av ve' g1 x1 g2 x2 g3 x3 g4 x4 g5 x5 g6 by (simp add: defs)
            next
              case x6: (Inr x6)
              have R: "fst (migrateToKV dataVersion mt s now)"
                "status (fst (snd (migrateToKV dataVersion mt s now))) = COMPLETED"
                "progress (fst (snd (migrateToKV dataVersion mt s now))) = 100"
                "errors (fst (snd (migrateToKV dataVersion mt s now))) = []"
                "snd (snd (migrateToKV dataVersion mt s now)) = dataManager_clearCache s6 None"
                using av ve' g1 x1 g2 x2 g3 x3 g4 x4 g5 x5 g6 x6 by (simp_all add: defs)
              have e02: "evolves {kvAdapter_getCacheKey KV_CATEGORIES, kvAdapter_getCacheKey KV_SITES} {} s s2"
                by (rule evolves_trans'[OF e1 e2]) auto
              have d2: "deref (heap s2) staticCategories = bundledCategories s"
                "deref (heap s2) staticSites = bundledSites s"
                using deref_evolves[OF e02] st by (simp_all add: bundledCategories_def bundledSites_def)
              have l2: "staticSites < length (heap s2)" using evolvesD(8)[OF e02] st by simp
              have c3: "sentry s3 KV_CATEGORIES = Some (Collection (bundledCategories s))"
                using kvAdapter_set_ev(2)[OF g3] x3 d2 by simp
              have d3: "deref (heap s3) staticSites = bundledSites s"
                using deref_evolves[OF e3 l2] d2 by simp
              have c4: "sentry s4 KV_SITES = Some (Collection (bundledSites s))"
                using kvAdapter_set_ev(2)[OF g4] x4 d3 by simp
              have c4': "sentry s4 KV_CATEGORIES = Some (Collection (bundledCategories s))"
                using evolvesD(6)[OF e4, of KV_CATEGORIES] c3 by simp
              have e46: "evolves {kvAdapter_getCacheKey KV_METADATA, kvAdapter_getCacheKey KV_VERSION}
                                 {KV_METADATA, KV_VERSION} s4 s6"
                by (rule evolves_trans'[OF e5 e6]) auto
              have nv: "KV_CATEGORIES \<noteq> KV_VERSION" "KV_SITES \<noteq> KV_VERSION"
                by (simp_all add: key_defs)
              have c6: "sentry s6 KV_CATEGORIES = Some (Collection (bundledCategories s))"
                "sentry s6 KV_SITES = Some (Collection (bundledSites s))"
                using evolvesD(6)[OF e46, of KV_CATEGORIES] evolvesD(6)[OF e46, of KV_SITES] c4 c4' nv
                by simp_all
              show ?thesis using R c6 by simp
            qed
          qed
        qed
      qed
    qed
  qed
qed

lemma migrate_failure:
  assumes av: "isKVAvailable s" and f: "\<not> fst (migrateToKV dataVersion mt s now)"
  shows "status (fst (snd (migrateToKV dataVersion mt s now))) = FAILED \<and>
         errors (fst (snd (migrateToKV dataVersion mt s now))) \<noteq> []"
proof (cases "validationError (bundledCategories s) (bundledSites s)")
  case (Some e)
  from migrate_validation_failure[OF av Some, of dataVersion mt now] show ?thesis by auto
next
  case None
  note defs = migrateToKV_def checkPrerequisites_def validateData_def bundledCategories_def
    bundledSites_def Let_def log_def
  have ve': "validationError (deref (heap s) staticCategories) (deref (heap s) staticSites) = None"
    using None by (simp add: bundledCategories_def bundledSites_def)
  show ?thesis using f av ve'
    by (auto simp: defs split: prod.splits sum.splits)
qed

text \<open>
  C2, as amended. With the store available: when the bundled dataset fails validation,
  \<open>migrateToKV\<close> returns false, the migration is \<open>FAILED\<close>, the error list holds the
  validation error, and the state (the store in it) is what it was, nothing having been
  written. A duplicate category id, a duplicate bookmark id and a dangling category
  reference all fail validation. Whenever \<open>migrateToKV\<close> returns false, for a failed
  validation or a failed read or write, the migration is \<open>FAILED\<close> and the error list is
  not empty. (Writes made before a failing write stay.)
\<close>

theorem migration_failure:
  assumes "isKVAvailable s"
  shows "(validationError (bundledCategories s) (bundledSites s) \<noteq> None \<longrightarrow>
            \<not> fst (migrateToKV dataVersion mt s now) \<and>
            status (fst (snd (migrateToKV dataVersion mt s now))) = FAILED \<and>
            errors (fst (snd (migrateToKV dataVersion mt s now)))
              = [the (validationError (bundledCategories s) (bundledSites s))] \<and>
            snd (snd (migrateToKV dataVersion mt s now)) = s) \<and>
         (\<not> uniqueIds (bundledCategories s) \<or> \<not> uniqueIds (bundledSites s) \<or>
          \<not> referencesExist (bundledCategories s) (bundledSites s) \<longrightarrow>
            validationError (bundledCategories s) (bundledSites s) \<noteq> None) \<and>
         (\<not> fst (migrateToKV dataVersion mt s now) \<longrightarrow>
            status (fst (snd (migrateToKV dataVersion mt s now))) = FAILED \<and>
            errors (fst (snd (migrateToKV dataVersion mt s now))) \<noteq> [])"
proof -
  have a: "\<not> fst (migrateToKV dataVersion mt s now) \<and>
            status (fst (snd (migrateToKV dataVersion mt s now))) = FAILED \<and>
            errors (fst (snd (migrateToKV dataVersion mt s now)))
              = [the (validationError (bundledCategories s) (bundledSites s))] \<and>
            snd (snd (migrateToKV dataVersion mt s now)) = s"
    if "validationError (bundledCategories s) (bundledSites s) \<noteq> None"
  proof -
    from that obtain e where e: "validationError (bundledCategories s) (bundledSites s) = Some e" by auto
    from migrate_validation_failure[OF assms e, of dataVersion mt now] e show ?thesis by auto
  qed
  have b: "validationError (bundledCategories s) (bundledSites s) \<noteq> None"
    if "\<not> uniqueIds (bundledCategories s) \<or> \<not> uniqueIds (bundledSites s) \<or>
          \<not> referencesExist (bundledCategories s) (bundledSites s)"
    using that validationError_None[of "bundledCategories s" "bundledSites s"] by blast
  from a b migrate_failure[OF assms, of dataVersion mt now] show ?thesis by blast
qed

lemma duplicate_example_facts:
  "isKVAvailable duplicate_example" "\<not> uniqueIds (bundledCategories duplicate_example)"
  by (simp_all add: duplicate_example_def kv_example_def isKVAvailable_def uniqueIds_def
      bundledCategories_def deref_def key_defs)

theorem migration_failure_witness:
  "isKVAvailable duplicate_example \<and> \<not> uniqueIds (bundledCategories duplicate_example) \<and>
   \<not> fst (migrateToKV ''1.0.0'' MigrationTool_new duplicate_example 1) \<and>
   status (fst (snd (migrateToKV ''1.0.0'' MigrationTool_new duplicate_example 1))) = FAILED \<and>
   errors (fst (snd (migrateToKV ''1.0.0'' MigrationTool_new duplicate_example 1))) \<noteq> [] \<and>
   snd (snd (migrateToKV ''1.0.0'' MigrationTool_new duplicate_example 1)) = duplicate_example"
  using migration_failure[OF duplicate_example_facts(1), of "''1.0.0''" MigrationTool_new 1]
    duplicate_example_facts
  by simp

text \<open>
  The claim as stated fails for a write error: the write of the bookmarks fails after the
  categories have been written, the migration is \<open>FAILED\<close>, and the store has the
  categories and no bookmarks.
\<close>

theorem migration_failure_counterexample:
  "isKVAvailable sites_unwritable_example \<and>
   sentry sites_unwritable_example KV_CATEGORIES = None \<and>
   sentry sites_unwritable_example KV_SITES = None \<and>
   \<not> fst (migrateToKV ''1.0.0'' MigrationTool_new sites_unwritable_example 1) \<and>
   status (fst (snd (migrateToKV ''1.0.0'' MigrationTool_new sites_unwritable_example 1))) = FAILED \<and>
   errors (fst (snd (migrateToKV ''1.0.0'' MigrationTool_new sites_unwritable_example 1))) = [StoreFailure NETWORK] \<and>
   sentry (snd (snd (migrateToKV ''1.0.0'' MigrationTool_new sites_unwritable_example 1))) KV_CATEGORIES
     = Some (Collection [dev]) \<and>
   sentry (snd (snd (migrateToKV ''1.0.0'' MigrationTool_new sites_unwritable_example 1))) KV_SITES = None"
  by (simp add: sites_unwritable_example_def example_defs migrateToKV_def checkPrerequisites_def
      validateData_def validationError_def MigrationTool_new_def migrationFailed_def log_def
      isKVAvailable_def kvAdapter_get_def kvAdapter_set_def handleError_network_def
      cache_defs key_defs sentry_def getProp_def deref_def Let_def)

section \<open>The search helpers\<close>








end
